theory Spec2Isabelle
  imports Main "HOL-Library.DAList"
begin

section \<open>Data model of the api package\<close>

text \<open>
  A \<^verbatim>\<open>*websocket.Conn\<close> is a pointer; only its identity matters to the handlers.
  A context is either the context of an inbound request or the context made by
  \<^verbatim>\<open>context.WithCancel\<close> in \<^verbatim>\<open>handleSubscribe\<close>. A \<^verbatim>\<open>context.CancelFunc\<close> is
  identified with the context it cancels.
\<close>

datatype conn = Conn nat

datatype ctx = RequestCtx nat | WithCancel nat

text \<open>JSON values, as far as the handlers build them: strings and objects.\<close>

datatype json = JString string | JObject "(string \<times> json) list"

text \<open>
  \<^verbatim>\<open>type MessageCreatedValue struct { Id string `json:"id"`; Message string `json:"message"` }\<close>
\<close>

record MessageCreatedValue =
  Id :: string
  Message :: string

text \<open>
  The field \<^verbatim>\<open>Value any\<close> of \<^verbatim>\<open>Message\<close>: an interface value. The only dynamic type
  the package ever stores in it is \<^verbatim>\<open>MessageCreatedValue\<close>.
\<close>

datatype any = AnyMessageCreatedValue MessageCreatedValue

text \<open>
  \<^verbatim>\<open>type Message struct { RoomId string `json:"-"`; Kind string `json:"kind"`; Value any `json:"value"` }\<close>
\<close>

record Message =
  RoomId :: string
  Kind :: string
  Value :: any

definition KindMessageCreated :: string where
  "KindMessageCreated = ''message_created''"

subsection \<open>Strings on the wire\<close>

text \<open>
  Modelled from the documentation of \<^verbatim>\<open>encoding/json\<close> and \<^verbatim>\<open>unicode/utf8\<close>, which are
  outside the repository. A Go string is any sequence of bytes. The encoder writes it as
  a JSON string and replaces every byte that does not start a valid UTF-8 sequence by
  U+FFFD; escapes apart, the valid sequences are written as they are. So the string a
  parser reads back is the Go string with each such byte replaced by the three bytes of
  U+FFFD.

  \<open>rune_len\<close> is the length of the valid UTF-8 sequence at the head of a string, as
  \<^verbatim>\<open>utf8.DecodeRuneInString\<close> finds it, and 0 where that function reports an error.
\<close>

definition within :: "nat \<Rightarrow> nat \<Rightarrow> char \<Rightarrow> bool" where
  "within lo hi c = (lo \<le> of_char c \<and> (of_char c :: nat) \<le> hi)"

definition rune_len :: "string \<Rightarrow> nat" where
  "rune_len s =
     (case s of
        [] \<Rightarrow> 0
      | b0 # bs \<Rightarrow>
          if within 0 127 b0 then 1
          else if within 194 223 b0 then
            (case bs of
               b1 # _ \<Rightarrow> if within 128 191 b1 then 2 else 0
             | _ \<Rightarrow> 0)
          else if within 224 239 b0 then
            (case bs of
               b1 # b2 # _ \<Rightarrow>
                 if within (if within 224 224 b0 then 160 else 128)
                           (if within 237 237 b0 then 159 else 191) b1 \<and>
                    within 128 191 b2
                 then 3 else 0
             | _ \<Rightarrow> 0)
          else if within 240 244 b0 then
            (case bs of
               b1 # b2 # b3 # _ \<Rightarrow>
                 if within (if within 240 240 b0 then 144 else 128)
                           (if within 244 244 b0 then 143 else 191) b1 \<and>
                    within 128 191 b2 \<and> within 128 191 b3
                 then 4 else 0
             | _ \<Rightarrow> 0)
          else 0)"

definition RuneError :: string where
  "RuneError = [CHR 0xEF, CHR 0xBF, CHR 0xBD]"

function coerce :: "string \<Rightarrow> string" where
  "coerce [] = []"
| "coerce (b # bs) =
     (if rune_len (b # bs) = 0 then RuneError @ coerce bs
      else take (rune_len (b # bs)) (b # bs) @ coerce (drop (rune_len (b # bs)) (b # bs)))"
  by pat_completeness auto
termination
  by (relation "measure length") auto

text \<open>\<^verbatim>\<open>utf8.ValidString\<close>: every byte belongs to a valid sequence.\<close>

function ValidString :: "string \<Rightarrow> bool" where
  "ValidString [] = True"
| "ValidString (b # bs) =
     (if rune_len (b # bs) = 0 then False
      else ValidString (drop (rune_len (b # bs)) (b # bs)))"
  by pat_completeness auto
termination
  by (relation "measure length") auto

declare coerce.simps [simp del] ValidString.simps [simp del]

subsection \<open>JSON encoding driven by the struct tags\<close>

text \<open>
  \<^verbatim>\<open>encoding/json\<close> writes one member per struct field, in declaration order, under the
  name given by the field's tag; a field tagged \<^verbatim>\<open>"-"\<close> is left out. The wire carries
  the JSON value that a parser reads from the text.
\<close>

definition marshal_struct :: "(string \<times> json) list \<Rightarrow> json" where
  "marshal_struct tagged = JObject (filter (\<lambda>(tag, v). tag \<noteq> ''-'') tagged)"

definition marshal_string :: "string \<Rightarrow> json" where
  "marshal_string s = JString (coerce s)"

definition marshal_MessageCreatedValue :: "MessageCreatedValue \<Rightarrow> json" where
  "marshal_MessageCreatedValue v =
     marshal_struct [(''id'', marshal_string (Id v)), (''message'', marshal_string (Message v))]"

fun marshal_any :: "any \<Rightarrow> json" where
  "marshal_any (AnyMessageCreatedValue v) = marshal_MessageCreatedValue v"

definition marshal_Message :: "Message \<Rightarrow> json" where
  "marshal_Message m =
     marshal_struct
       [(''-'', marshal_string (RoomId m)),
        (''kind'', marshal_string (Kind m)),
        (''value'', marshal_any (Value m))]"



subsection \<open>The client's reading of a payload\<close>





section \<open>The handler's shared state\<close>

text \<open>
  What the handlers do to the world, in the order they do it: a successful
  \<^verbatim>\<open>upgrader.Upgrade\<close> with the connection it returned, a call of
  \<^verbatim>\<open>conn.WriteJSON\<close> with the payload and whether it returned nil, a call of a stored
  \<^verbatim>\<open>cancel\<close>, a call of \<^verbatim>\<open>conn.Close\<close>, a line written through \<^verbatim>\<open>slog\<close>.
\<close>

datatype effect =
    Upgrade conn
  | WriteJSON conn json bool
  | Cancel ctx
  | Close conn
  | Slog string

text \<open>
  \<^verbatim>\<open>subscribers map[string]map[*websocket.Conn]context.CancelFunc\<close>. The inner map is
  iterated by \<^verbatim>\<open>notifyClients\<close>; Go leaves the order of iteration open, so the inner map
  is a list of entries with distinct keys, read in the order of the list, and every
  order is some state. \<open>cancelled\<close> holds the contexts whose cancellation has been
  requested, \<open>closed\<close> the connections closed, \<open>fresh\<close> the next unused address.
\<close>

record server =
  subscribers :: "string \<rightharpoonup> (conn, ctx) alist"
  cancelled :: "ctx set"
  closed :: "conn set"
  trace :: "effect list"
  fresh :: nat

definition NewHandler :: server where
  "NewHandler = \<lparr>subscribers = Map.empty, cancelled = {}, closed = {}, trace = [], fresh = 0\<rparr>"

definition emit :: "effect list \<Rightarrow> server \<Rightarrow> server" where
  "emit es st = st\<lparr>trace := trace st @ es\<rparr>"

text \<open>The effects a step added to the trace.\<close>

definition since :: "server \<Rightarrow> server \<Rightarrow> effect list" where
  "since st st' = drop (length (trace st)) (trace st')"

definition conns_of :: "server \<Rightarrow> string \<Rightarrow> conn set" where
  "conns_of st room =
     (case subscribers st room of None \<Rightarrow> {} | Some subs \<Rightarrow> fst ` set (DAList.impl_of subs))"

section \<open>notifyClients\<close>

text \<open>
  The loop of \<^verbatim>\<open>notifyClients\<close> over the entries of one room. \<open>broken\<close> is the set of
  connections on which \<^verbatim>\<open>WriteJSON\<close> returns an error.
\<close>

fun notify_each :: "json \<Rightarrow> conn set \<Rightarrow> (conn \<times> ctx) list \<Rightarrow> server \<Rightarrow> server" where
  "notify_each payload broken [] st = st"
| "notify_each payload broken ((conn, cancel) # rest) st =
     (if conn \<in> broken
      then notify_each payload broken rest
             ((emit [WriteJSON conn payload False, Slog ''Failed to send message'', Cancel cancel] st)
                \<lparr>cancelled := insert cancel (cancelled st)\<rparr>)
      else notify_each payload broken rest (emit [WriteJSON conn payload True] st))"

definition notifyClients :: "Message \<Rightarrow> conn set \<Rightarrow> server \<Rightarrow> server" where
  "notifyClients message broken st =
     (case subscribers st (RoomId message) of
        None \<Rightarrow> emit [Slog ''No subscribers to notify''] st
      | Some subs \<Rightarrow>
          if length (DAList.impl_of subs) = 0
          then emit [Slog ''No subscribers to notify''] st
          else notify_each (marshal_Message message) broken (DAList.impl_of subs) st)"

section \<open>Collaborators and requests\<close>

text \<open>
  The store and the UUID library are outside the package; the handlers are functions of
  what these return. \<open>'u\<close> is \<^verbatim>\<open>uuid.UUID\<close>. \<open>GetRoom\<close> gives the error of
  \<^verbatim>\<open>queries.GetRoom\<close> (\<open>None\<close> for nil), \<open>InsertMessage\<close> the error or the identifier
  of \<^verbatim>\<open>queries.InsertMessage\<close>. Only \<^verbatim>\<open>pgx.ErrNoRows\<close> is told apart from other errors.
\<close>

datatype store_error = ErrNoRows | ErrOther

record 'u env =
  uuid_Parse :: "string \<Rightarrow> 'u option"
  uuid_String :: "'u \<Rightarrow> string"
  GetRoom :: "'u \<Rightarrow> store_error option"
  InsertMessage :: "'u \<Rightarrow> string \<Rightarrow> store_error + 'u"

text \<open>
  An inbound request: the URL parameter \<^verbatim>\<open>room_id\<close>, \<^verbatim>\<open>request.Context()\<close>, whether
  \<^verbatim>\<open>upgrader.Upgrade\<close> succeeds on it, and the \<^verbatim>\<open>Message\<close> field that decoding the body
  into \<^verbatim>\<open>bodySchema\<close> yields (\<open>None\<close> when \<^verbatim>\<open>Decode\<close> returns an error).
\<close>

record request =
  room_id :: string
  req_context :: ctx
  upgradable :: bool
  body :: "string option"

text \<open>
  A response is written either by \<^verbatim>\<open>http.Error(writer, text, code)\<close> or by
  \<^verbatim>\<open>writer.Write\<close> of a marshalled value, which implies \<^verbatim>\<open>http.StatusOK\<close>.
\<close>

datatype response = Error string nat | Json json

section \<open>handleSubscribe\<close>

text \<open>The locals of a handler that is blocked in \<^verbatim>\<open><-ctx.Done()\<close>.\<close>

record session =
  s_room :: string
  s_conn :: conn
  s_ctx :: ctx
  s_parent :: ctx

text \<open>
  Lines 238 to 248: under the mutex, create the inner map when the room has none, then
  store \<open>cancel\<close> under \<open>conn\<close>.
\<close>

definition add_subscriber :: "string \<Rightarrow> conn \<Rightarrow> ctx \<Rightarrow> server \<Rightarrow> server" where
  "add_subscriber rawRoomId conn cancel st =
     (let st1 = (if subscribers st rawRoomId = None
                 then st\<lparr>subscribers := (subscribers st)(rawRoomId \<mapsto> DAList.empty)\<rparr>
                 else st);
          st2 = emit [Slog ''New subscriber''] st1
      in case subscribers st2 rawRoomId of
           None \<Rightarrow> st2
         | Some inner \<Rightarrow>
             st2\<lparr>subscribers := (subscribers st2)(rawRoomId \<mapsto> DAList.update conn cancel inner)\<rparr>)"

text \<open>
  Lines 252 to 256: \<^verbatim>\<open>delete(handler.subscribers[rawRoomId], conn)\<close> under the mutex.
  Indexing a missing room gives the nil map, and \<^verbatim>\<open>delete\<close> on it does nothing.
\<close>

definition remove_subscriber :: "string \<Rightarrow> conn \<Rightarrow> server \<Rightarrow> server" where
  "remove_subscriber rawRoomId conn st =
     (case subscribers st rawRoomId of
        None \<Rightarrow> st
      | Some inner \<Rightarrow>
          st\<lparr>subscribers := (subscribers st)(rawRoomId \<mapsto> DAList.delete conn inner)\<rparr>)"

definition close_conn :: "conn \<Rightarrow> server \<Rightarrow> server" where
  "close_conn conn st = (emit [Close conn] st)\<lparr>closed := insert conn (closed st)\<rparr>"

text \<open>
  Lines 205 to 248: the handler up to the point where it blocks. It answers with an
  error, or it returns the session that is now waiting. The connection and the context
  are new objects, named by the next unused address.
\<close>

definition handleSubscribe :: "'u env \<Rightarrow> request \<Rightarrow> server \<Rightarrow> (response + session) \<times> server" where
  "handleSubscribe env req st =
     (let rawRoomId = room_id req in
      case uuid_Parse env rawRoomId of
        None \<Rightarrow> (Inl (Error ''Invalid room id'' 400), st)
      | Some roomId \<Rightarrow>
          (case GetRoom env roomId of
             Some ErrNoRows \<Rightarrow> (Inl (Error ''room not found'' 404), st)
           | Some ErrOther \<Rightarrow> (Inl (Error ''Something went wrong'' 500), st)
           | None \<Rightarrow>
               if \<not> upgradable req
               then (Inl (Error ''Failed to upgrade connection'' 400),
                     emit [Slog ''Failed to upgrade connection''] st)
               else
                 (let conn = Conn (fresh st);
                      cancel = WithCancel (fresh st);
                      st1 = (emit [Upgrade conn] st)\<lparr>fresh := Suc (fresh st)\<rparr>
                  in (Inr \<lparr>s_room = rawRoomId, s_conn = conn, s_ctx = cancel,
                            s_parent = req_context req\<rparr>,
                      add_subscriber rawRoomId conn cancel st1))))"

text \<open>
  Line 250: \<^verbatim>\<open><-ctx.Done()\<close> returns once \<open>cancel\<close> has been called or the parent
  context, the request's, is done.
\<close>

definition Done :: "server \<Rightarrow> session \<Rightarrow> bool" where
  "Done st s = (s_ctx s \<in> cancelled st \<or> s_parent s \<in> cancelled st)"

text \<open>
  Lines 250 to 257: blocked (\<open>None\<close>) until the context is done; then the entry is
  deleted, the handler returns and the deferred \<^verbatim>\<open>conn.Close()\<close> of line 234 runs.
\<close>

definition handleSubscribe_resume :: "session \<Rightarrow> server \<Rightarrow> server option" where
  "handleSubscribe_resume s st =
     (if Done st s
      then Some (close_conn (s_conn s) (remove_subscriber (s_room s) (s_conn s) st))
      else None)"

section \<open>handleCreateRoomMessage\<close>

text \<open>What the handler does, in program order.\<close>

datatype 'u action =
    CallGetRoom 'u
  | CallInsertMessage 'u string
  | Respond response
  | Go Message

definition handleCreateRoomMessage :: "'u env \<Rightarrow> request \<Rightarrow> 'u action list" where
  "handleCreateRoomMessage env req =
     (let rawRoomId = room_id req in
      case uuid_Parse env rawRoomId of
        None \<Rightarrow> [Respond (Error ''Invalid room id'' 400)]
      | Some roomId \<Rightarrow>
          CallGetRoom roomId #
          (case GetRoom env roomId of
             Some ErrNoRows \<Rightarrow> [Respond (Error ''room not found'' 404)]
           | Some ErrOther \<Rightarrow> [Respond (Error ''Something went wrong'' 500)]
           | None \<Rightarrow>
               (case body req of
                  None \<Rightarrow> [Respond (Error ''Invalid request body'' 400)]
                | Some text \<Rightarrow>
                    CallInsertMessage roomId text #
                    (case InsertMessage env roomId text of
                       Inl err \<Rightarrow> [Respond (Error ''Something went wrong'' 500)]
                     | Inr messageId \<Rightarrow>
                         [Respond (Json (marshal_struct
                            [(''message_id'', JString (uuid_String env messageId))])),
                          Go \<lparr>RoomId = rawRoomId, Kind = KindMessageCreated,
                              Value = AnyMessageCreatedValue
                                \<lparr>Id = uuid_String env messageId, Message = text\<rparr>\<rparr>]))))"

definition responses :: "'u action list \<Rightarrow> response list" where
  "responses acts = [r. Respond r \<leftarrow> acts]"

definition spawned :: "'u action list \<Rightarrow> Message list" where
  "spawned acts = [m. Go m \<leftarrow> acts]"

text \<open>
  The request served to the end: the handler's actions, then the goroutines it started,
  each a call of \<^verbatim>\<open>notifyClients\<close>. The requester sees the responses.
\<close>

definition serve_create ::
  "'u env \<Rightarrow> request \<Rightarrow> conn set \<Rightarrow> server \<Rightarrow> response list \<times> server" where
  "serve_create env req broken st =
     (let acts = handleCreateRoomMessage env req
      in (responses acts, fold (\<lambda>m. notifyClients m broken) (spawned acts) st))"

section \<open>The running server\<close>

text \<open>
  The handler's state together with the \<^verbatim>\<open>handleSubscribe\<close> goroutines that are blocked.
  The mutex makes each block of statements between \<^verbatim>\<open>Lock\<close> and \<^verbatim>\<open>Unlock\<close> one step.
  The steps: a subscribe request runs up to its wait; a create-message request runs with
  the goroutine it starts; the HTTP server ends a request's context; a blocked handler
  whose context is done runs to its end.
\<close>

record system =
  handler :: server
  parked :: "session list"

datatype 'u event =
    SubscribeRequest "'u env" request
  | CreateMessageRequest "'u env" request "conn set"
  | RequestDone nat
  | Wake nat

fun step :: "'u event \<Rightarrow> system \<Rightarrow> system" where
  "step (SubscribeRequest env req) sys =
     (case handleSubscribe env req (handler sys) of
        (Inl r, st') \<Rightarrow> sys\<lparr>handler := st'\<rparr>
      | (Inr s, st') \<Rightarrow> \<lparr>handler = st', parked = parked sys @ [s]\<rparr>)"
| "step (CreateMessageRequest env req broken) sys =
     sys\<lparr>handler := snd (serve_create env req broken (handler sys))\<rparr>"
| "step (RequestDone n) sys =
     sys\<lparr>handler := (handler sys)\<lparr>cancelled := insert (RequestCtx n) (cancelled (handler sys))\<rparr>\<rparr>"
| "step (Wake i) sys =
     (if i < length (parked sys)
      then (case handleSubscribe_resume (parked sys ! i) (handler sys) of
              None \<Rightarrow> sys
            | Some st' \<Rightarrow> \<lparr>handler = st', parked = take i (parked sys) @ drop (Suc i) (parked sys)\<rparr>)
      else sys)"

definition boot :: system where
  "boot = \<lparr>handler = NewHandler, parked = []\<rparr>"

definition run :: "'u event list \<Rightarrow> system" where
  "run evs = fold step evs boot"

text \<open>A connection is registered under at most one room.\<close>

definition one_room :: "server \<Rightarrow> bool" where
  "one_room st = (\<forall>r1 r2 c. c \<in> conns_of st r1 \<and> c \<in> conns_of st r2 \<longrightarrow> r1 = r2)"

text \<open>Every registered connection was handed out by an earlier upgrade.\<close>

definition allocated :: "server \<Rightarrow> bool" where
  "allocated st = (\<forall>r n. Conn n \<in> conns_of st r \<longrightarrow> n < fresh st)"

definition registry_ok :: "server \<Rightarrow> bool" where
  "registry_ok st = (one_room st \<and> allocated st)"

text \<open>
  A blocked handler is registered when the room of its session has an entry that holds
  its connection with its cancel function.
\<close>

definition registered :: "server \<Rightarrow> session \<Rightarrow> bool" where
  "registered st s =
     (case subscribers st (s_room s) of
        None \<Rightarrow> False
      | Some subs \<Rightarrow> DAList.lookup subs (s_conn s) = Some (s_ctx s))"

definition system_ok :: "system \<Rightarrow> bool" where
  "system_ok sys =
     (registry_ok (handler sys) \<and>
      distinct (map s_conn (parked sys)) \<and>
      (\<forall>s \<in> set (parked sys). registered (handler sys) s))"

text \<open>
  The registry holds the connections of the blocked handlers and no others. A closed
  connection was handed out by an upgrade and belongs to no blocked handler, and every
  connection handed out is closed or belongs to a blocked handler.
\<close>

definition sessions_exact :: "system \<Rightarrow> bool" where
  "sessions_exact sys =
     (\<forall>r. conns_of (handler sys) r = s_conn ` {s \<in> set (parked sys). s_room s = r})"

definition closed_ok :: "system \<Rightarrow> bool" where
  "closed_ok sys =
     ((\<forall>n. Conn n \<in> closed (handler sys) \<longrightarrow> n < fresh (handler sys)) \<and>
      (\<forall>s \<in> set (parked sys). s_conn s \<notin> closed (handler sys)) \<and>
      (\<forall>n < fresh (handler sys).
         Conn n \<in> closed (handler sys) \<or> Conn n \<in> s_conn ` set (parked sys)))"

definition ended_ok :: "system \<Rightarrow> bool" where
  "ended_ok sys = (system_ok sys \<and> sessions_exact sys \<and> closed_ok sys)"

section \<open>Goroutines, statement by statement\<close>

text \<open>
  The handlers again, this time one statement at a time and with the mutex as a lock
  that a goroutine has to wait for, so that the goroutines interleave at every
  statement. \<open>stmt\<close> lists the statements of \<^verbatim>\<open>handleSubscribe\<close> from line 238 on and of
  \<^verbatim>\<open>notifyClients\<close>: the calls on the mutex, the accesses to the map (the writes of lines
  240 to 246, the delete of line 254, the lookup and range of lines 190 to 202), the
  wait of line 250 and the deferred close.
\<close>

datatype stmt =
    Lock
  | Unlock
  | Add string conn ctx
  | Await session
  | Remove string conn
  | CloseConn conn
  | Notify Message "conn set"

definition handleSubscribe_body :: "session \<Rightarrow> stmt list" where
  "handleSubscribe_body s =
     [Lock, Add (s_room s) (s_conn s) (s_ctx s), Unlock,
      Await s,
      Lock, Remove (s_room s) (s_conn s), Unlock,
      CloseConn (s_conn s)]"

text \<open>
  \<^verbatim>\<open>notifyClients\<close> defers its unlock, so the unlock follows the lookup and the loop on
  either way out of the function.
\<close>

definition notifyClients_body :: "Message \<Rightarrow> conn set \<Rightarrow> stmt list" where
  "notifyClients_body message broken = [Lock, Notify message broken, Unlock]"

text \<open>
  Lines 205 to 236 of \<^verbatim>\<open>handleSubscribe\<close>: validation and upgrade, before the handler
  first takes the mutex.
\<close>

definition handleSubscribe_upgrade ::
  "'u env \<Rightarrow> request \<Rightarrow> server \<Rightarrow> (response + session) \<times> server" where
  "handleSubscribe_upgrade env req st =
     (let rawRoomId = room_id req in
      case uuid_Parse env rawRoomId of
        None \<Rightarrow> (Inl (Error ''Invalid room id'' 400), st)
      | Some roomId \<Rightarrow>
          (case GetRoom env roomId of
             Some ErrNoRows \<Rightarrow> (Inl (Error ''room not found'' 404), st)
           | Some ErrOther \<Rightarrow> (Inl (Error ''Something went wrong'' 500), st)
           | None \<Rightarrow>
               if \<not> upgradable req
               then (Inl (Error ''Failed to upgrade connection'' 400),
                     emit [Slog ''Failed to upgrade connection''] st)
               else
                 (let conn = Conn (fresh st);
                      cancel = WithCancel (fresh st)
                  in (Inr \<lparr>s_room = rawRoomId, s_conn = conn, s_ctx = cancel,
                            s_parent = req_context req\<rparr>,
                      (emit [Upgrade conn] st)\<lparr>fresh := Suc (fresh st)\<rparr>))))"

text \<open>
  A goroutine is the handler it runs and the number of statements it has executed.
  The machine is the handler's state, the goroutine that holds the mutex, if any, the
  goroutines, and the number of map accesses made so far by a goroutine that did not
  hold the mutex.
\<close>

datatype origin = Subscriber session | Publisher Message "conn set"

fun body_of :: "origin \<Rightarrow> stmt list" where
  "body_of (Subscriber s) = handleSubscribe_body s"
| "body_of (Publisher message broken) = notifyClients_body message broken"

record machine =
  memory :: server
  mutex :: "nat option"
  goroutines :: "(origin \<times> nat) list"
  unguarded :: nat

definition guard :: "nat \<Rightarrow> machine \<Rightarrow> machine" where
  "guard i M = (if mutex M = Some i then M else M\<lparr>unguarded := Suc (unguarded M)\<rparr>)"

text \<open>
  One statement of goroutine \<open>i\<close>; \<open>None\<close> when it blocks. \<^verbatim>\<open>Lock\<close> blocks while the
  mutex is held, the wait while the context is not done.
\<close>

fun exec :: "nat \<Rightarrow> stmt \<Rightarrow> machine \<Rightarrow> machine option" where
  "exec i Lock M = (if mutex M = None then Some (M\<lparr>mutex := Some i\<rparr>) else None)"
| "exec i Unlock M = Some (M\<lparr>mutex := None\<rparr>)"
| "exec i (Add r c k) M = Some ((guard i M)\<lparr>memory := add_subscriber r c k (memory M)\<rparr>)"
| "exec i (Await s) M = (if Done (memory M) s then Some M else None)"
| "exec i (Remove r c) M = Some ((guard i M)\<lparr>memory := remove_subscriber r c (memory M)\<rparr>)"
| "exec i (CloseConn c) M = Some (M\<lparr>memory := close_conn c (memory M)\<rparr>)"
| "exec i (Notify message broken) M =
     Some ((guard i M)\<lparr>memory := notifyClients message broken (memory M)\<rparr>)"

text \<open>
  What happens to the machine: a subscribe request arrives and, once upgraded, becomes a
  goroutine; a create-message request arrives and starts its publishers; a request's
  context ends; the scheduler lets goroutine \<open>i\<close> run its next statement.
\<close>

datatype 'u occurrence =
    SubscribeArrives "'u env" request
  | CreateArrives "'u env" request "conn set"
  | ContextEnds nat
  | Runs nat

fun tick :: "'u occurrence \<Rightarrow> machine \<Rightarrow> machine" where
  "tick (SubscribeArrives env req) M =
     (case handleSubscribe_upgrade env req (memory M) of
        (Inl r, st') \<Rightarrow> M\<lparr>memory := st'\<rparr>
      | (Inr s, st') \<Rightarrow> M\<lparr>memory := st', goroutines := goroutines M @ [(Subscriber s, 0)]\<rparr>)"
| "tick (CreateArrives env req broken) M =
     M\<lparr>goroutines := goroutines M @
          map (\<lambda>message. (Publisher message broken, 0)) (spawned (handleCreateRoomMessage env req))\<rparr>"
| "tick (ContextEnds n) M =
     M\<lparr>memory := (memory M)\<lparr>cancelled := insert (RequestCtx n) (cancelled (memory M))\<rparr>\<rparr>"
| "tick (Runs i) M =
     (if i < length (goroutines M)
      then (case goroutines M ! i of
              (who, pc) \<Rightarrow>
                if pc < length (body_of who)
                then (case exec i (body_of who ! pc) M of
                        None \<Rightarrow> M
                      | Some M' \<Rightarrow> M'\<lparr>goroutines := (goroutines M')[i := (who, Suc pc)]\<rparr>)
                else M)
      else M)"

definition power_on :: machine where
  "power_on = \<lparr>memory = NewHandler, mutex = None, goroutines = [], unguarded = 0\<rparr>"

definition reach :: "'u occurrence list \<Rightarrow> machine" where
  "reach occs = fold tick occs power_on"

text \<open>
  The statements a goroutine has executed. It is inside a critical section when the
  last call on the mutex among them is a \<^verbatim>\<open>Lock\<close>; its pending entries are the pairs it
  has added and not removed since.
\<close>

definition executed :: "origin \<times> nat \<Rightarrow> stmt list" where
  "executed g = take (snd g) (body_of (fst g))"

fun holding :: "bool \<Rightarrow> stmt list \<Rightarrow> bool" where
  "holding h [] = h"
| "holding h (Lock # p) = holding True p"
| "holding h (Unlock # p) = holding False p"
| "holding h (x # p) = holding h p"

definition in_critical :: "origin \<times> nat \<Rightarrow> bool" where
  "in_critical g = holding False (executed g)"

definition pending :: "origin \<times> nat \<Rightarrow> (string \<times> conn) list" where
  "pending g = [(r, c). Add r c k \<leftarrow> executed g, Remove r c \<notin> set (executed g)]"

fun is_access :: "stmt \<Rightarrow> bool" where
  "is_access (Add r c k) = True"
| "is_access (Remove r c) = True"
| "is_access (Notify message broken) = True"
| "is_access x = False"

text \<open>
  What holds of the machine whatever the schedule: every goroutine is within its
  handler; the mutex is held by goroutine \<open>i\<close> exactly when \<open>i\<close> is inside a critical
  section; the subscribers own connections that an upgrade has handed out, each its
  own; the set of a room is what the goroutines have added and not removed; and no map
  access was made without the mutex.
\<close>

definition machine_ok :: "machine \<Rightarrow> bool" where
  "machine_ok M =
     ((\<forall>i < length (goroutines M).
         snd (goroutines M ! i) \<le> length (body_of (fst (goroutines M ! i)))) \<and>
      (\<forall>i < length (goroutines M). (mutex M = Some i) = in_critical (goroutines M ! i)) \<and>
      (\<forall>i. mutex M = Some i \<longrightarrow> i < length (goroutines M)) \<and>
      (\<forall>i < length (goroutines M). \<forall>s. fst (goroutines M ! i) = Subscriber s \<longrightarrow>
         (\<exists>n. s_conn s = Conn n \<and> n < fresh (memory M))) \<and>
      (\<forall>i < length (goroutines M). \<forall>j < length (goroutines M). \<forall>s s'.
         fst (goroutines M ! i) = Subscriber s \<and> fst (goroutines M ! j) = Subscriber s' \<and>
         s_conn s = s_conn s' \<longrightarrow> i = j) \<and>
      (\<forall>r. conns_of (memory M) r =
         {c. \<exists>i < length (goroutines M). (r, c) \<in> set (pending (goroutines M ! i))}) \<and>
      unguarded M = 0)"

section \<open>Reading a trace\<close>

text \<open>
  The connections \<^verbatim>\<open>WriteJSON\<close> was called on, the payloads that reached a connection,
  and the cancel functions called, each in the order of the trace.
\<close>

definition attempts :: "effect list \<Rightarrow> conn list" where
  "attempts es = [c. WriteJSON c w ok \<leftarrow> es]"

definition delivered :: "effect list \<Rightarrow> (conn \<times> json) list" where
  "delivered es = [(c, w). WriteJSON c w True \<leftarrow> es]"

definition cancels :: "effect list \<Rightarrow> ctx list" where
  "cancels es = [k. Cancel k \<leftarrow> es]"

section \<open>Sample inputs\<close>


definition hello :: Message where
  "hello = \<lparr>RoomId = ''r1'', Kind = KindMessageCreated,
            Value = AnyMessageCreatedValue \<lparr>Id = ''m1'', Message = ''hello''\<rparr>\<rparr>"

text \<open>
  An instance of the UUID library for the samples: the 36-character form
  \<^verbatim>\<open>xxxxxxxx-xxxx-xxxx-xxxx-xxxxxxxxxxxx\<close>, hexadecimal digits of either case, read
  into sixteen bytes, and printed back in lower case.
\<close>

definition hexval :: "char \<Rightarrow> nat option" where
  "hexval c =
     (let n = (of_char c :: nat) in
      if 48 \<le> n \<and> n \<le> 57 then Some (n - 48)
      else if 97 \<le> n \<and> n \<le> 102 then Some (n - 87)
      else if 65 \<le> n \<and> n \<le> 70 then Some (n - 55)
      else None)"

definition xtob :: "char \<Rightarrow> char \<Rightarrow> nat option" where
  "xtob x1 x2 =
     (case (hexval x1, hexval x2) of (Some a, Some b) \<Rightarrow> Some (16 * a + b) | _ \<Rightarrow> None)"

definition Parse36 :: "string \<Rightarrow> nat list option" where
  "Parse36 s =
     (if length s \<noteq> 36 then None
      else if s ! 8 \<noteq> CHR ''-'' \<or> s ! 13 \<noteq> CHR ''-'' \<or> s ! 18 \<noteq> CHR ''-'' \<or> s ! 23 \<noteq> CHR ''-''
      then None
      else those (map (\<lambda>x. xtob (s ! x) (s ! (x + 1)))
                   [0, 2, 4, 6, 9, 11, 14, 16, 19, 21, 24, 26, 28, 30, 32, 34]))"

definition hexchar :: "nat \<Rightarrow> char" where
  "hexchar n = ''0123456789abcdef'' ! n"

definition String36 :: "nat list \<Rightarrow> string" where
  "String36 u =
     (let h = concat (map (\<lambda>b. [hexchar (b div 16), hexchar (b mod 16)]) u)
      in take 8 h @ ''-'' @ take 4 (drop 8 h) @ ''-'' @ take 4 (drop 12 h) @ ''-'' @
         take 4 (drop 16 h) @ ''-'' @ drop 20 h)"

text \<open>
  One room exists, written once in upper and once in lower case. The store is down for
  a second identifier and knows no other room. Inserting the text \<open>boom\<close> fails.
\<close>

definition upper_id :: string where
  "upper_id = ''0A1B2C3D-0000-4000-8000-00000000ABCD''"

definition lower_id :: string where
  "lower_id = ''0a1b2c3d-0000-4000-8000-00000000abcd''"

definition down_id :: string where
  "down_id = ''ffffffff-0000-4000-8000-000000000000''"

definition other_id :: string where
  "other_id = ''11111111-0000-4000-8000-000000000000''"

definition room_uuid :: "nat list" where
  "room_uuid = [10, 27, 44, 61, 0, 0, 64, 0, 128, 0, 0, 0, 0, 0, 171, 205]"

definition down_uuid :: "nat list" where
  "down_uuid = [255, 255, 255, 255, 0, 0, 64, 0, 128, 0, 0, 0, 0, 0, 0, 0]"

definition message_uuid :: "nat list" where
  "message_uuid = [0, 0, 0, 1, 0, 0, 64, 0, 128, 0, 0, 0, 0, 0, 0, 7]"

definition sample_env :: "nat list env" where
  "sample_env =
     \<lparr>uuid_Parse = Parse36,
      uuid_String = String36,
      GetRoom = (\<lambda>u. if u = room_uuid then None
                      else if u = down_uuid then Some ErrOther else Some ErrNoRows),
      InsertMessage = (\<lambda>u text. if text = ''boom'' then Inl ErrOther else Inr message_uuid)\<rparr>"

definition get :: "string \<Rightarrow> request" where
  "get raw = \<lparr>room_id = raw, req_context = RequestCtx 0, upgradable = True, body = None\<rparr>"

definition post :: "string \<Rightarrow> string \<Rightarrow> request" where
  "post raw text =
     \<lparr>room_id = raw, req_context = RequestCtx 1, upgradable = False, body = Some text\<rparr>"

text \<open>Three clients subscribe to the room, one after the other.\<close>

definition three :: system where
  "three = run [SubscribeRequest sample_env (get lower_id),
                SubscribeRequest sample_env (get lower_id),
                SubscribeRequest sample_env (get lower_id)]"

definition abc :: "(conn, ctx) alist" where
  "abc = DAList.update (Conn 2) (WithCancel 2)
           (DAList.update (Conn 1) (WithCancel 1)
              (DAList.update (Conn 0) (WithCancel 0) DAList.empty))"

definition bob :: session where
  "bob = \<lparr>s_room = lower_id, s_conn = Conn 1, s_ctx = WithCancel 1, s_parent = RequestCtx 0\<rparr>"

definition hello_room :: Message where
  "hello_room = \<lparr>RoomId = lower_id, Kind = KindMessageCreated,
     Value = AnyMessageCreatedValue
       \<lparr>Id = ''00000001-0000-4000-8000-000000000007'', Message = ''hello''\<rparr>\<rparr>"

text \<open>
  After the three have subscribed, the context of their requests ends and the second
  handler runs to its end.
\<close>

definition bob_left :: "nat list event list" where
  "bob_left = [SubscribeRequest sample_env (get lower_id),
               SubscribeRequest sample_env (get lower_id),
               SubscribeRequest sample_env (get lower_id),
               RequestDone 0, Wake 1]"

text \<open>The same room addressed in lower and in upper case by two subscribers.\<close>

definition two_spellings :: "nat list event list" where
  "two_spellings = [SubscribeRequest sample_env (get lower_id),
                    SubscribeRequest sample_env (get upper_id)]"

section \<open>Properties\<close>

subsection \<open>The registry under the single operations\<close>

lemma subscribers_emit [simp]: "subscribers (emit es st) = subscribers st"
  by (simp add: emit_def)

lemma conns_of_emit [simp]: "conns_of (emit es st) = conns_of st"
  by (simp add: conns_of_def fun_eq_iff)

lemma conns_of_NewHandler [simp]: "conns_of NewHandler r = {}"
  by (simp add: conns_of_def NewHandler_def)

lemma subscribers_notify_each [simp]:
  "subscribers (notify_each w broken xs st) = subscribers st"
  by (induction xs arbitrary: st) auto

lemma fresh_notify_each [simp]:
  "fresh (notify_each w broken xs st) = fresh st"
  by (induction xs arbitrary: st) (auto simp: emit_def)

lemma subscribers_notifyClients [simp]:
  "subscribers (notifyClients m broken st) = subscribers st"
  by (simp add: notifyClients_def split: option.splits)

lemma conns_of_add:
  "conns_of (add_subscriber r c k st) r' =
     (if r' = r then insert c (conns_of st r) else conns_of st r')"
  by (auto simp: conns_of_def add_subscriber_def Let_def emit_def update.rep_eq empty.rep_eq
      AList.dom_update split: option.splits)

lemma conns_of_remove:
  "conns_of (remove_subscriber r c st) r' =
     (if r' = r then conns_of st r - {c} else conns_of st r')"
  by (auto simp: conns_of_def remove_subscriber_def delete.rep_eq AList.delete_keys
      split: option.splits simp flip: set_map)

lemma subscribers_add_NewHandler:
  "subscribers (add_subscriber r c k NewHandler) = [r \<mapsto> DAList.update c k DAList.empty]"
  by (simp add: add_subscriber_def NewHandler_def emit_def)

lemma left_room:
  "subscribers (remove_subscriber ''r1'' (Conn 0)
     (add_subscriber ''r1'' (Conn 0) (WithCancel 0) NewHandler)) ''r1'' = Some DAList.empty"
  by (simp add: remove_subscriber_def subscribers_add_NewHandler alist_eq_iff
      delete.rep_eq update.rep_eq empty.rep_eq)

subsection \<open>The sample collaborators\<close>

lemma Parse36_upper: "Parse36 upper_id = Some room_uuid"
  by (simp add: Parse36_def upper_id_def xtob_def hexval_def room_uuid_def)

lemma Parse36_lower: "Parse36 lower_id = Some room_uuid"
  by (simp add: Parse36_def lower_id_def xtob_def hexval_def room_uuid_def)

lemma Parse36_down: "Parse36 down_id = Some down_uuid"
  by (simp add: Parse36_def down_id_def xtob_def hexval_def down_uuid_def)

lemma Parse36_other: "Parse36 other_id = Some [17, 17, 17, 17, 0, 0, 64, 0, 128, 0, 0, 0, 0, 0, 0, 0]"
  by (simp add: Parse36_def other_id_def xtob_def hexval_def)

lemma Parse36_bad: "Parse36 ''general'' = None"
  by (simp add: Parse36_def)

lemma String36_message: "String36 message_uuid = ''00000001-0000-4000-8000-000000000007''"
  by (simp add: String36_def message_uuid_def hexchar_def)

subsection \<open>What one publication does\<close>

lemma attempts_simps [simp]:
  "attempts [] = []"
  "attempts (WriteJSON c w ok # es) = c # attempts es"
  "attempts (Cancel k # es) = attempts es"
  "attempts (Slog t # es) = attempts es"
  "attempts (Close c # es) = attempts es"
  "attempts (Upgrade c # es) = attempts es"
  "attempts (es @ es') = attempts es @ attempts es'"
  by (simp_all add: attempts_def)

lemma delivered_simps [simp]:
  "delivered [] = []"
  "delivered (WriteJSON c w True # es) = (c, w) # delivered es"
  "delivered (WriteJSON c w False # es) = delivered es"
  "delivered (Cancel k # es) = delivered es"
  "delivered (Slog t # es) = delivered es"
  "delivered (Close c # es) = delivered es"
  "delivered (Upgrade c # es) = delivered es"
  "delivered (es @ es') = delivered es @ delivered es'"
  by (simp_all add: delivered_def)

lemma cancels_simps [simp]:
  "cancels [] = []"
  "cancels (WriteJSON c w ok # es) = cancels es"
  "cancels (Cancel k # es) = k # cancels es"
  "cancels (Slog t # es) = cancels es"
  "cancels (Close c # es) = cancels es"
  "cancels (Upgrade c # es) = cancels es"
  "cancels (es @ es') = cancels es @ cancels es'"
  by (simp_all add: cancels_def)

lemma since_emit [simp]: "since st (emit es st) = es"
  by (simp add: since_def emit_def)

lemma trace_notify_each:
  "\<exists>es. trace (notify_each w b xs st) = trace st @ es \<and>
        attempts es = map fst xs \<and>
        delivered es = map (\<lambda>(c, k). (c, w)) (filter (\<lambda>(c, k). c \<notin> b) xs) \<and>
        cancels es = map snd (filter (\<lambda>(c, k). c \<in> b) xs)"
proof (induction xs arbitrary: st)
  case Nil
  then show ?case by simp
next
  case (Cons x xs)
  obtain c k where x: "x = (c, k)" by (cases x)
  show ?case
  proof (cases "c \<in> b")
    case True
    let ?st1 = "(emit [WriteJSON c w False, Slog ''Failed to send message'', Cancel k] st)
                  \<lparr>cancelled := insert k (cancelled st)\<rparr>"
    from Cons.IH [of ?st1] obtain es where
      es: "trace (notify_each w b xs ?st1) = trace ?st1 @ es" "attempts es = map fst xs"
        "delivered es = map (\<lambda>(c, k). (c, w)) (filter (\<lambda>(c, k). c \<notin> b) xs)" "cancels es = map snd (filter (\<lambda>(c, k). c \<in> b) xs)"
      by blast
    show ?thesis
      apply (rule exI [of _ "[WriteJSON c w False, Slog ''Failed to send message'', Cancel k] @ es"])
      using es True x by (simp add: emit_def)
  next
    case False
    let ?st1 = "emit [WriteJSON c w True] st"
    from Cons.IH [of ?st1] obtain es where
      es: "trace (notify_each w b xs ?st1) = trace ?st1 @ es" "attempts es = map fst xs"
        "delivered es = map (\<lambda>(c, k). (c, w)) (filter (\<lambda>(c, k). c \<notin> b) xs)" "cancels es = map snd (filter (\<lambda>(c, k). c \<in> b) xs)"
      by blast
    show ?thesis
      apply (rule exI [of _ "[WriteJSON c w True] @ es"])
      using es False x by (simp add: emit_def)
  qed
qed

lemma since_notify_each:
  "attempts (since st (notify_each w b xs st)) = map fst xs \<and>
   delivered (since st (notify_each w b xs st)) = map (\<lambda>(c, k). (c, w)) (filter (\<lambda>(c, k). c \<notin> b) xs) \<and>
   cancels (since st (notify_each w b xs st)) = map snd (filter (\<lambda>(c, k). c \<in> b) xs)"
  using trace_notify_each [of w b xs st] by (auto simp: since_def)

lemma cancelled_notify_each:
  "cancelled (notify_each w b xs st) = cancelled st \<union> set (map snd (filter (\<lambda>(c, k). c \<in> b) xs))"
  by (induction w b xs st rule: notify_each.induct) (auto simp: emit_def)

lemma closed_notify_each [simp]:
  "closed (notify_each w b xs st) = closed st"
  by (induction w b xs st rule: notify_each.induct) (auto simp: emit_def)

subsection \<open>The sample scenario\<close>

lemma subscribe_sample:
  "handleSubscribe sample_env (get lower_id) st =
     (Inr \<lparr>s_room = lower_id, s_conn = Conn (fresh st), s_ctx = WithCancel (fresh st),
           s_parent = RequestCtx 0\<rparr>,
      add_subscriber lower_id (Conn (fresh st)) (WithCancel (fresh st))
        ((emit [Upgrade (Conn (fresh st))] st)\<lparr>fresh := Suc (fresh st)\<rparr>))"
  by (simp add: handleSubscribe_def sample_env_def get_def Parse36_lower Let_def)

lemma fresh_add [simp]: "fresh (add_subscriber r c k st) = fresh st"
  by (simp add: add_subscriber_def Let_def emit_def split: option.splits)

lemma three_subscribers: "subscribers (handler three) = [lower_id \<mapsto> abc]"
  by (simp add: three_def run_def boot_def subscribe_sample NewHandler_def add_subscriber_def
      emit_def abc_def numeral_2_eq_2)

lemma three_parked: "parked three ! Suc 0 = bob"
  by (simp add: three_def run_def boot_def subscribe_sample NewHandler_def bob_def emit_def)

lemma impl_of_abc:
  "DAList.impl_of abc = [(Conn 0, WithCancel 0), (Conn 1, WithCancel 1), (Conn 2, WithCancel 2)]"
  by (simp add: abc_def update.rep_eq empty.rep_eq)

lemma conns_of_close [simp]: "conns_of (close_conn c st) = conns_of st"
  by (simp add: close_conn_def conns_of_def fun_eq_iff emit_def)

lemma conns_of_notifyClients [simp]: "conns_of (notifyClients m broken st) = conns_of st"
  by (simp add: conns_of_def fun_eq_iff)

lemma Parse36_lower_env: "uuid_Parse sample_env lower_id = Some room_uuid"
  by (simp add: sample_env_def Parse36_lower)

lemma post_hello:
  "handleCreateRoomMessage sample_env (post lower_id ''hello'') =
     [CallGetRoom room_uuid, CallInsertMessage room_uuid ''hello'',
      Respond (Json (JObject [(''message_id'', JString ''00000001-0000-4000-8000-000000000007'')])),
      Go hello_room]"
  by (simp add: handleCreateRoomMessage_def sample_env_def post_def Parse36_lower String36_message
      hello_room_def marshal_struct_def)

lemma serve_post_hello:
  "snd (serve_create sample_env (post lower_id ''hello'') broken st) = notifyClients hello_room broken st"
  by (simp add: serve_create_def post_hello spawned_def)

lemma three_length: "length (parked three) = 3"
  by (simp add: three_def run_def boot_def subscribe_sample)

lemma spellings_differ [simp]: "lower_id \<noteq> upper_id" "upper_id \<noteq> lower_id"
  by (simp_all add: lower_id_def upper_id_def)

lemma subscribe_upper:
  "handleSubscribe sample_env (get upper_id) st =
     (Inr \<lparr>s_room = upper_id, s_conn = Conn (fresh st), s_ctx = WithCancel (fresh st),
           s_parent = RequestCtx 0\<rparr>,
      add_subscriber upper_id (Conn (fresh st)) (WithCancel (fresh st))
        ((emit [Upgrade (Conn (fresh st))] st)\<lparr>fresh := Suc (fresh st)\<rparr>))"
  by (simp add: handleSubscribe_def sample_env_def get_def Parse36_upper Let_def)

lemma two_spellings_handler:
  "subscribers (handler (run two_spellings)) =
     [lower_id \<mapsto> DAList.update (Conn 0) (WithCancel 0) DAList.empty,
      upper_id \<mapsto> DAList.update (Conn 1) (WithCancel 1) DAList.empty]"
  by (simp add: two_spellings_def run_def boot_def subscribe_sample subscribe_upper NewHandler_def
      add_subscriber_def emit_def)

subsection \<open>The registry along every run\<close>

lemma fresh_emit [simp]: "fresh (emit es st) = fresh st"
  by (simp add: emit_def)

lemma fresh_notifyClients [simp]: "fresh (notifyClients m broken st) = fresh st"
  by (simp add: notifyClients_def split: option.splits)

lemma fresh_remove [simp]: "fresh (remove_subscriber r c st) = fresh st"
  by (simp add: remove_subscriber_def split: option.splits)

lemma fresh_close [simp]: "fresh (close_conn c st) = fresh st"
  by (simp add: close_conn_def)

lemma conns_of_fresh_update [simp]: "conns_of (st\<lparr>fresh := n\<rparr>) = conns_of st"
  by (simp add: conns_of_def fun_eq_iff)

lemma conns_of_cancelled_update [simp]: "conns_of (st\<lparr>cancelled := X\<rparr>) = conns_of st"
  by (simp add: conns_of_def fun_eq_iff)

lemma fold_notifyClients [simp]:
  "conns_of (fold (\<lambda>m. notifyClients m broken) ms st) = conns_of st \<and>
   fresh (fold (\<lambda>m. notifyClients m broken) ms st) = fresh st"
  by (induction ms arbitrary: st) simp_all

lemma registry_ok_same:
  assumes "registry_ok st" and "conns_of st' = conns_of st" and "fresh st' = fresh st"
  shows "registry_ok st'"
  using assms by (simp add: registry_ok_def one_room_def allocated_def)

lemma registry_ok_add:
  assumes "registry_ok st"
  shows "registry_ok (add_subscriber r (Conn (fresh st)) k
           ((emit [Upgrade (Conn (fresh st))] st)\<lparr>fresh := Suc (fresh st)\<rparr>))"
proof -
  let ?st' = "add_subscriber r (Conn (fresh st)) k
           ((emit [Upgrade (Conn (fresh st))] st)\<lparr>fresh := Suc (fresh st)\<rparr>)"
  have new: "Conn (fresh st) \<notin> conns_of st r'" for r'
    using assms by (auto simp: registry_ok_def allocated_def)
  have conns: "conns_of ?st' r' = (if r' = r then insert (Conn (fresh st)) (conns_of st r) else conns_of st r')" for r'
    by (simp add: conns_of_add)
  have fr: "fresh ?st' = Suc (fresh st)" by simp
  have one: "one_room ?st'"
    unfolding one_room_def
  proof (intro allI impI)
    fix r1 r2 c
    assume both: "c \<in> conns_of ?st' r1 \<and> c \<in> conns_of ?st' r2"
    show "r1 = r2"
    proof (cases "c = Conn (fresh st)")
      case True
      with both new show ?thesis by (auto simp: conns split: if_splits)
    next
      case False
      with both have "c \<in> conns_of st r1 \<and> c \<in> conns_of st r2"
        by (auto simp: conns split: if_splits)
      with assms show ?thesis by (auto simp: registry_ok_def one_room_def)
    qed
  qed
  have alloc: "allocated ?st'"
    unfolding allocated_def fr
  proof (intro allI impI)
    fix r' n
    assume "Conn n \<in> conns_of ?st' r'"
    then have "n = fresh st \<or> Conn n \<in> conns_of st r'"
      by (auto simp: conns split: if_splits)
    with assms show "n < Suc (fresh st)"
      by (auto simp: registry_ok_def allocated_def less_Suc_eq)
  qed
  from one alloc show ?thesis by (simp add: registry_ok_def)
qed

lemma registry_ok_remove:
  assumes "registry_ok st"
  shows "registry_ok (remove_subscriber r c st)"
  using assms
  by (auto simp: registry_ok_def one_room_def allocated_def conns_of_remove split: if_splits)

lemma registry_ok_handleSubscribe:
  assumes "registry_ok st"
  shows "registry_ok (snd (handleSubscribe env req st))"
  using assms registry_ok_add [OF assms] registry_ok_same [OF assms, of "emit es st" for es]
  by (auto simp: handleSubscribe_def Let_def split: option.splits store_error.splits)

lemma registry_ok_step:
  assumes "registry_ok (handler sys)"
  shows "registry_ok (handler (step e sys))"
proof (cases e)
  case (SubscribeRequest env req)
  with registry_ok_handleSubscribe [OF assms, of env req] show ?thesis
    by (auto split: prod.splits sum.splits)
next
  case (CreateMessageRequest env req broken)
  then show ?thesis
    using registry_ok_same [OF assms] by (simp add: serve_create_def Let_def)
next
  case (RequestDone n)
  then show ?thesis using registry_ok_same [OF assms] by simp
next
  case (Wake i)
  then show ?thesis
    using assms registry_ok_same [OF registry_ok_remove [OF assms]]
    by (auto simp: handleSubscribe_resume_def split: option.splits if_splits)
qed

lemma registry_ok_fold:
  "registry_ok (handler sys) \<Longrightarrow> registry_ok (handler (fold step evs sys))"
  by (induction evs arbitrary: sys) (simp_all add: registry_ok_step)

lemma registry_ok_run: "registry_ok (handler (run evs))"
  unfolding run_def
  by (rule registry_ok_fold)
     (simp add: boot_def registry_ok_def one_room_def allocated_def)

lemma attempts_notifyClients:
  "set (attempts (since st (notifyClients m broken st))) = conns_of st (RoomId m)"
proof (cases "subscribers st (RoomId m)")
  case None
  then show ?thesis by (simp add: notifyClients_def conns_of_def)
next
  case (Some subs)
  show ?thesis
  proof (cases "DAList.impl_of subs = []")
    case True
    with Some show ?thesis by (simp add: notifyClients_def conns_of_def)
  next
    case False
    with Some have "notifyClients m broken st =
        notify_each (marshal_Message m) broken (DAList.impl_of subs) st"
      by (simp add: notifyClients_def)
    with since_notify_each [of st "marshal_Message m" broken "DAList.impl_of subs"] Some
    show ?thesis by (simp add: conns_of_def)
  qed
qed

subsection \<open>The blocked handlers along every run\<close>

lemma registered_same:
  "subscribers st' = subscribers st \<Longrightarrow> registered st' s = registered st s"
  by (simp add: registered_def)

lemma registered_conn:
  assumes "registered st s"
  shows "s_conn s \<in> conns_of st (s_room s)"
proof -
  from assms obtain subs where
    subs: "subscribers st (s_room s) = Some subs"
    and look: "map_of (DAList.impl_of subs) (s_conn s) = Some (s_ctx s)"
    by (auto simp: registered_def lookup.rep_eq split: option.splits)
  from look have "(s_conn s, s_ctx s) \<in> set (DAList.impl_of subs)"
    by (rule map_of_SomeD)
  then have "fst (s_conn s, s_ctx s) \<in> fst ` set (DAList.impl_of subs)"
    by (rule imageI)
  with subs show ?thesis by (simp add: conns_of_def)
qed

lemma registered_add:
  "registered (add_subscriber r c k st) s =
     (if s_room s = r then (if s_conn s = c then s_ctx s = k else registered st s)
      else registered st s)"
  by (auto simp: registered_def add_subscriber_def Let_def emit_def lookup_update
      split: option.splits)

lemma registered_remove:
  "registered (remove_subscriber r c st) s =
     (if s_room s = r \<and> s_conn s = c then False else registered st s)"
  by (auto simp: registered_def remove_subscriber_def split: option.splits)

lemma registered_emit [simp]: "registered (emit es st) s = registered st s"
  by (simp add: registered_def)

lemma registered_fresh_update [simp]: "registered (st\<lparr>fresh := n\<rparr>) s = registered st s"
  by (simp add: registered_def)

lemma registered_cancelled_update [simp]: "registered (st\<lparr>cancelled := X\<rparr>) s = registered st s"
  by (simp add: registered_def)

lemma registered_close [simp]: "registered (close_conn c st) s = registered st s"
  by (simp add: registered_def close_conn_def emit_def)

lemma subscribers_fold_notifyClients [simp]:
  "subscribers (fold (\<lambda>m. notifyClients m broken) ms st) = subscribers st"
  by (induction ms arbitrary: st) simp_all

lemma others_differ:
  assumes "distinct (map f xs)" and "i < length xs"
    and "x \<in> set (take i xs @ drop (Suc i) xs)"
  shows "f x \<noteq> f (xs ! i)"
proof -
  have "xs = take i xs @ xs ! i # drop (Suc i) xs"
    using assms(2) by (rule id_take_nth_drop)
  then have "distinct (map f (take i xs @ xs ! i # drop (Suc i) xs))"
    using assms(1) by simp
  then have "f (xs ! i) \<notin> f ` set (take i xs)" and "f (xs ! i) \<notin> f ` set (drop (Suc i) xs)"
    by auto
  moreover have "f x \<in> f ` set (take i xs) \<or> f x \<in> f ` set (drop (Suc i) xs)"
    using assms(3) by auto
  ultimately show ?thesis by metis
qed

lemma distinct_without:
  assumes "distinct (map f xs)"
  shows "distinct (map f (take i xs @ drop (Suc i) xs))"
proof -
  have "distinct (map f (take i xs) @ map f (drop i xs))"
    using assms by (simp flip: map_append)
  then have "distinct (map f (take i xs) @ map f (drop (Suc i) xs))"
    by (cases "i < length xs") (auto simp: Cons_nth_drop_Suc [symmetric])
  then show ?thesis by simp
qed

lemma system_ok_subscribe:
  assumes "system_ok sys"
  shows "system_ok (step (SubscribeRequest env req) sys)"
proof -
  let ?st = "handler sys"
  have reg: "registry_ok ?st" and dis: "distinct (map s_conn (parked sys))"
    and all: "\<And>s. s \<in> set (parked sys) \<Longrightarrow> registered ?st s"
    using assms by (simp_all add: system_ok_def)
  show ?thesis
  proof (cases "handleSubscribe env req ?st")
    case (Pair res st')
    show ?thesis
    proof (cases res)
      case (Inl r)
      have same: "subscribers st' = subscribers ?st \<and> fresh st' = fresh ?st"
        using Pair Inl
        by (auto simp: handleSubscribe_def Let_def split: option.splits store_error.splits if_splits)
      then have "conns_of st' = conns_of ?st"
        by (simp add: conns_of_def fun_eq_iff)
      with same reg have "registry_ok st'" by (simp add: registry_ok_same)
      moreover have "registered st' x" if "x \<in> set (parked sys)" for x
        using all [OF that] same registered_same [of st' ?st x] by simp
      ultimately show ?thesis
        using dis Pair Inl by (simp add: system_ok_def)
    next
      case (Inr s)
      let ?c = "Conn (fresh ?st)"
      have s: "s = \<lparr>s_room = room_id req, s_conn = ?c, s_ctx = WithCancel (fresh ?st),
                    s_parent = req_context req\<rparr>"
        and st': "st' = add_subscriber (room_id req) ?c (WithCancel (fresh ?st))
                    ((emit [Upgrade ?c] ?st)\<lparr>fresh := Suc (fresh ?st)\<rparr>)"
        using Pair Inr
        by (auto simp: handleSubscribe_def Let_def split: option.splits store_error.splits if_splits)
      have new: "s_conn x \<noteq> ?c" if "x \<in> set (parked sys)" for x
      proof
        assume "s_conn x = ?c"
        with registered_conn [OF all [OF that]] have "?c \<in> conns_of ?st (s_room x)" by simp
        with reg show False by (auto simp: registry_ok_def allocated_def)
      qed
      have reg': "registry_ok st'"
        unfolding st' using reg by (rule registry_ok_add)
      have "?c \<notin> s_conn ` set (parked sys)"
      proof
        assume "?c \<in> s_conn ` set (parked sys)"
        then obtain x where "x \<in> set (parked sys)" and "s_conn x = ?c" by auto
        with new [of x] show False by simp
      qed
      then have dis': "distinct (map s_conn (parked sys @ [s]))"
        using dis by (simp add: s)
      have old: "registered st' x" if "x \<in> set (parked sys)" for x
        using all [OF that] new [OF that]
        by (simp add: st' registered_add)
      have own: "registered st' s"
        by (simp add: st' s registered_add)
      from reg' dis' old own Pair Inr show ?thesis
        by (auto simp: system_ok_def)
    qed
  qed
qed

lemma system_ok_wake:
  assumes "system_ok sys"
  shows "system_ok (step (Wake i) sys)"
proof (cases "i < length (parked sys) \<and> Done (handler sys) (parked sys ! i)")
  case False
  with assms show ?thesis by (auto simp: handleSubscribe_resume_def)
next
  case True
  let ?st = "handler sys"
  let ?s = "parked sys ! i"
  let ?st' = "close_conn (s_conn ?s) (remove_subscriber (s_room ?s) (s_conn ?s) ?st)"
  let ?rest = "take i (parked sys) @ drop (Suc i) (parked sys)"
  have reg: "registry_ok ?st" and dis: "distinct (map s_conn (parked sys))"
    and all: "\<And>s. s \<in> set (parked sys) \<Longrightarrow> registered ?st s"
    using assms by (simp_all add: system_ok_def)
  have stp: "step (Wake i) sys = \<lparr>handler = ?st', parked = ?rest\<rparr>"
    using True by (simp add: handleSubscribe_resume_def)
  have reg': "registry_ok ?st'"
    using registry_ok_same [OF registry_ok_remove [OF reg]] by simp
  have dis': "distinct (map s_conn ?rest)"
    using dis by (rule distinct_without)
  have kept: "registered ?st' x" if "x \<in> set ?rest" for x
  proof -
    have "s_conn x \<noteq> s_conn ?s"
      using others_differ [OF dis _ that] True by simp
    moreover have "x \<in> set (parked sys)"
      using that by (auto dest: in_set_takeD in_set_dropD)
    ultimately show ?thesis
      using all [of x]
      by (simp add: registered_remove)
  qed
  from reg' dis' kept show ?thesis
    unfolding stp by (simp add: system_ok_def)
qed

lemma system_ok_step:
  assumes "system_ok sys"
  shows "system_ok (step e sys)"
proof (cases e)
  case (SubscribeRequest env req)
  with assms show ?thesis by (simp only: system_ok_subscribe)
next
  case (CreateMessageRequest env req broken)
  have "subscribers (snd (serve_create env req broken (handler sys))) = subscribers (handler sys)"
    by (simp add: serve_create_def Let_def)
  then have "registered (snd (serve_create env req broken (handler sys))) x = registered (handler sys) x"
    for x by (rule registered_same)
  with assms CreateMessageRequest registry_ok_step [of sys e] show ?thesis
    by (auto simp: system_ok_def)
next
  case (RequestDone n)
  with assms registry_ok_step [of sys e] show ?thesis
    by (auto simp: system_ok_def registered_def)
next
  case (Wake i)
  with assms show ?thesis by (simp only: system_ok_wake)
qed

lemma system_ok_fold: "system_ok sys \<Longrightarrow> system_ok (fold step evs sys)"
  by (induction evs arbitrary: sys) (simp_all add: system_ok_step)

lemma system_ok_run: "system_ok (run evs)"
  unfolding run_def
  by (rule system_ok_fold)
     (simp add: boot_def system_ok_def registry_ok_def one_room_def allocated_def)

lemma cancelled_notifyClients:
  assumes "registered st s" and "RoomId m = s_room s" and "s_conn s \<in> broken"
  shows "s_ctx s \<in> cancelled (notifyClients m broken st)"
proof -
  from assms(1) obtain subs where
    subs: "subscribers st (s_room s) = Some subs"
    and look: "map_of (DAList.impl_of subs) (s_conn s) = Some (s_ctx s)"
    by (auto simp: registered_def lookup.rep_eq split: option.splits)
  let ?xs = "DAList.impl_of subs"
  from look have mem: "(s_conn s, s_ctx s) \<in> set ?xs"
    by (rule map_of_SomeD)
  then have "?xs \<noteq> []" by auto
  with subs assms(2) have loop:
    "notifyClients m broken st = notify_each (marshal_Message m) broken ?xs st"
    by (simp add: notifyClients_def)
  have "(s_conn s, s_ctx s) \<in> set (filter (\<lambda>(c, k). c \<in> broken) ?xs)"
    using mem assms(3) by simp
  then have "snd (s_conn s, s_ctx s) \<in> snd ` set (filter (\<lambda>(c, k). c \<in> broken) ?xs)"
    by (rule imageI)
  then show ?thesis unfolding loop cancelled_notify_each by simp
qed

lemma registered_notifyClients [simp]:
  "registered (notifyClients m broken st) s = registered st s"
  by (simp add: registered_def)

lemma closed_close [simp]: "closed (close_conn c st) = insert c (closed st)"
  by (simp add: close_conn_def)

lemma since_close [simp]: "since st (close_conn c (remove_subscriber r c' st)) = [Close c]"
  by (simp add: since_def close_conn_def emit_def remove_subscriber_def split: option.splits)

lemma registered_bob: "registered (handler three) bob"
  by (simp add: registered_def three_subscribers bob_def lookup.rep_eq impl_of_abc)

subsection \<open>Strings that are valid UTF-8\<close>







subsection \<open>Handlers that have ended\<close>

lemma rest_keeps:
  assumes "i < length xs" and "x \<in> set xs" and "x \<noteq> xs ! i"
  shows "x \<in> set (take i xs @ drop (Suc i) xs)"
proof -
  have "xs = take i xs @ xs ! i # drop (Suc i) xs"
    using assms(1) by (rule id_take_nth_drop)
  then have "set xs = set (take i xs) \<union> {xs ! i} \<union> set (drop (Suc i) xs)"
    by (metis Un_insert_right list.simps(15) set_append sup_bot.right_neutral Un_assoc insert_is_Un)
  with assms(2,3) show ?thesis by auto
qed

lemma rest_subset: "x \<in> set (take i xs @ drop (Suc i) xs) \<Longrightarrow> x \<in> set xs"
  by (auto dest: in_set_takeD in_set_dropD)

lemma sessions_exact_same:
  assumes "sessions_exact sys" and "conns_of st' = conns_of (handler sys)"
  shows "sessions_exact \<lparr>handler = st', parked = parked sys\<rparr>"
  using assms by (simp add: sessions_exact_def)

lemma closed_ok_same:
  assumes "closed_ok sys" and "closed st' = closed (handler sys)" and "fresh st' = fresh (handler sys)"
  shows "closed_ok \<lparr>handler = st', parked = parked sys\<rparr>"
  using assms by (simp add: closed_ok_def)

lemma closed_emit [simp]: "closed (emit es st) = closed st"
  by (simp add: emit_def)

lemma closed_add [simp]: "closed (add_subscriber r c k st) = closed st"
  by (simp add: add_subscriber_def Let_def emit_def split: option.splits)

lemma closed_remove [simp]: "closed (remove_subscriber r c st) = closed st"
  by (simp add: remove_subscriber_def split: option.splits)

lemma closed_notifyClients [simp]: "closed (notifyClients m broken st) = closed st"
  by (simp add: notifyClients_def emit_def split: option.splits)

lemma closed_fold_notifyClients [simp]:
  "closed (fold (\<lambda>m. notifyClients m broken) ms st) = closed st"
  by (induction ms arbitrary: st) simp_all

lemma handleSubscribe_outcome:
  "(\<exists>r st'. handleSubscribe env req st = (Inl r, st') \<and>
      subscribers st' = subscribers st \<and> fresh st' = fresh st \<and> closed st' = closed st) \<or>
   handleSubscribe env req st =
       (Inr \<lparr>s_room = room_id req, s_conn = Conn (fresh st), s_ctx = WithCancel (fresh st),
             s_parent = req_context req\<rparr>,
        add_subscriber (room_id req) (Conn (fresh st)) (WithCancel (fresh st))
          ((emit [Upgrade (Conn (fresh st))] st)\<lparr>fresh := Suc (fresh st)\<rparr>))"
  by (simp add: handleSubscribe_def Let_def split: option.splits store_error.splits)

lemma ended_ok_subscribe:
  assumes "ended_ok sys"
  shows "ended_ok (step (SubscribeRequest env req) sys)"
proof -
  let ?st = "handler sys"
  have sok: "system_ok sys" and ex: "sessions_exact sys" and cl: "closed_ok sys"
    using assms by (simp_all add: ended_ok_def)
  have sok': "system_ok (step (SubscribeRequest env req) sys)"
    using sok by (rule system_ok_step)
  from handleSubscribe_outcome [of env req ?st] show ?thesis
  proof
    assume "\<exists>r st'. handleSubscribe env req ?st = (Inl r, st') \<and>
      subscribers st' = subscribers ?st \<and> fresh st' = fresh ?st \<and> closed st' = closed ?st"
    then obtain r st' where out: "handleSubscribe env req ?st = (Inl r, st')"
      and same: "subscribers st' = subscribers ?st" "fresh st' = fresh ?st" "closed st' = closed ?st"
      by blast
    from out have stp: "step (SubscribeRequest env req) sys = \<lparr>handler = st', parked = parked sys\<rparr>"
      by simp
    have "conns_of st' = conns_of ?st"
      using same(1) by (simp add: conns_of_def fun_eq_iff)
    with ex have ex': "sessions_exact \<lparr>handler = st', parked = parked sys\<rparr>"
      by (rule sessions_exact_same)
    have cl': "closed_ok \<lparr>handler = st', parked = parked sys\<rparr>"
      using cl same(3,2) by (rule closed_ok_same)
    from sok' ex' cl' show ?thesis unfolding ended_ok_def stp by (intro conjI)
  next
    assume parked: "handleSubscribe env req ?st =
       (Inr \<lparr>s_room = room_id req, s_conn = Conn (fresh ?st), s_ctx = WithCancel (fresh ?st),
             s_parent = req_context req\<rparr>,
        add_subscriber (room_id req) (Conn (fresh ?st)) (WithCancel (fresh ?st))
          ((emit [Upgrade (Conn (fresh ?st))] ?st)\<lparr>fresh := Suc (fresh ?st)\<rparr>))"
    let ?c = "Conn (fresh ?st)"
    let ?s = "\<lparr>s_room = room_id req, s_conn = ?c, s_ctx = WithCancel (fresh ?st),
               s_parent = req_context req\<rparr>"
    let ?st' = "add_subscriber (room_id req) ?c (WithCancel (fresh ?st))
          ((emit [Upgrade ?c] ?st)\<lparr>fresh := Suc (fresh ?st)\<rparr>)"
    have stp: "step (SubscribeRequest env req) sys = \<lparr>handler = ?st', parked = parked sys @ [?s]\<rparr>"
      using parked by simp
    have ex': "sessions_exact \<lparr>handler = ?st', parked = parked sys @ [?s]\<rparr>"
      unfolding sessions_exact_def
    proof (intro allI)
      fix r
      have "{s \<in> set (parked sys @ [?s]). s_room s = r} =
          {s \<in> set (parked sys). s_room s = r} \<union> (if r = room_id req then {?s} else {})"
        by auto
      then show "conns_of (handler \<lparr>handler = ?st', parked = parked sys @ [?s]\<rparr>) r =
          s_conn ` {s \<in> set (parked \<lparr>handler = ?st', parked = parked sys @ [?s]\<rparr>). s_room s = r}"
        using ex by (simp add: sessions_exact_def conns_of_add image_Un)
    qed
    have notclosed: "?c \<notin> closed ?st"
      using cl by (auto simp: closed_ok_def)
    have cl': "closed_ok \<lparr>handler = ?st', parked = parked sys @ [?s]\<rparr>"
      using cl notclosed by (auto simp: closed_ok_def less_Suc_eq)
    from sok' ex' cl' show ?thesis unfolding ended_ok_def stp by (intro conjI)
  qed
qed

lemma ended_ok_wake:
  assumes "ended_ok sys"
  shows "ended_ok (step (Wake i) sys)"
proof (cases "i < length (parked sys) \<and> Done (handler sys) (parked sys ! i)")
  case False
  with assms show ?thesis by (auto simp: handleSubscribe_resume_def)
next
  case True
  let ?st = "handler sys"
  let ?s = "parked sys ! i"
  let ?st' = "close_conn (s_conn ?s) (remove_subscriber (s_room ?s) (s_conn ?s) ?st)"
  let ?rest = "take i (parked sys) @ drop (Suc i) (parked sys)"
  have sok: "system_ok sys" and ex: "sessions_exact sys" and cl: "closed_ok sys"
    using assms by (simp_all add: ended_ok_def)
  have sok': "system_ok (step (Wake i) sys)"
    using sok by (rule system_ok_step)
  have dis: "distinct (map s_conn (parked sys))"
    using sok by (simp add: system_ok_def)
  have mem: "?s \<in> set (parked sys)" using True by simp
  have stp: "step (Wake i) sys = \<lparr>handler = ?st', parked = ?rest\<rparr>"
    using True by (simp add: handleSubscribe_resume_def)
  have differ: "s_conn x \<noteq> s_conn ?s" if "x \<in> set ?rest" for x
    using others_differ [OF dis _ that] True by simp
  have keep: "x \<in> set ?rest" if "x \<in> set (parked sys)" and "s_conn x \<noteq> s_conn ?s" for x
    using rest_keeps [of i "parked sys" x] True that by auto
  have ex': "sessions_exact \<lparr>handler = ?st', parked = ?rest\<rparr>"
    unfolding sessions_exact_def
  proof (intro allI set_eqI iffI)
    fix r c
    assume "c \<in> conns_of (handler \<lparr>handler = ?st', parked = ?rest\<rparr>) r"
    then have after: "c \<in> (if r = s_room ?s then conns_of ?st (s_room ?s) - {s_conn ?s} else conns_of ?st r)"
      by (simp add: conns_of_remove)
    then have in_old: "c \<in> conns_of ?st r"
      by (cases "r = s_room ?s") simp_all
    from after have ne: "c \<noteq> s_conn ?s" if "r = s_room ?s"
      using that by simp
    from in_old ex obtain x where x: "x \<in> set (parked sys)" "s_room x = r" "s_conn x = c"
      by (auto simp: sessions_exact_def)
    have "s_conn x \<noteq> s_conn ?s"
    proof
      assume same: "s_conn x = s_conn ?s"
      have "index_eq": "x = ?s"
        using dis x(1) mem same by (metis distinct_map inj_onD)
      with x ne show False by auto
    qed
    with x(1) have "x \<in> set ?rest" by (rule keep)
    with x show "c \<in> s_conn ` {s \<in> set (parked \<lparr>handler = ?st', parked = ?rest\<rparr>). s_room s = r}"
      by auto
  next
    fix r c
    assume "c \<in> s_conn ` {s \<in> set (parked \<lparr>handler = ?st', parked = ?rest\<rparr>). s_room s = r}"
    then obtain x where x: "x \<in> set ?rest" "s_room x = r" "s_conn x = c" by auto
    from x(1) have "x \<in> set (parked sys)" by (rule rest_subset)
    with ex x have "c \<in> conns_of ?st r" by (auto simp: sessions_exact_def)
    moreover have "c \<noteq> s_conn ?s" using differ [OF x(1)] x(3) by simp
    ultimately show "c \<in> conns_of (handler \<lparr>handler = ?st', parked = ?rest\<rparr>) r"
      by (auto simp: conns_of_remove)
  qed
  have reg: "registered ?st ?s"
    using sok mem by (simp add: system_ok_def)
  have alloc: "\<exists>n. s_conn ?s = Conn n \<and> n < fresh ?st"
  proof -
    obtain n where n: "s_conn ?s = Conn n" by (cases "s_conn ?s")
    from registered_conn [OF reg] n have "Conn n \<in> conns_of ?st (s_room ?s)" by simp
    with sok have "n < fresh ?st" by (auto simp: system_ok_def registry_ok_def allocated_def)
    with n show ?thesis by blast
  qed
  have cl': "closed_ok \<lparr>handler = ?st', parked = ?rest\<rparr>"
    unfolding closed_ok_def
  proof (intro conjI allI impI ballI)
    fix n assume "Conn n \<in> closed (handler \<lparr>handler = ?st', parked = ?rest\<rparr>)"
    then have "Conn n = s_conn ?s \<or> Conn n \<in> closed ?st" by simp
    with cl alloc show "n < fresh (handler \<lparr>handler = ?st', parked = ?rest\<rparr>)"
      by (auto simp: closed_ok_def)
  next
    fix x assume x: "x \<in> set (parked \<lparr>handler = ?st', parked = ?rest\<rparr>)"
    then have "x \<in> set ?rest" by simp
    from differ [OF this] rest_subset [OF this] cl
    show "s_conn x \<notin> closed (handler \<lparr>handler = ?st', parked = ?rest\<rparr>)"
      by (auto simp: closed_ok_def)
  next
    fix n assume "n < fresh (handler \<lparr>handler = ?st', parked = ?rest\<rparr>)"
    then have n: "n < fresh ?st" by simp
    show "Conn n \<in> closed (handler \<lparr>handler = ?st', parked = ?rest\<rparr>) \<or>
          Conn n \<in> s_conn ` set (parked \<lparr>handler = ?st', parked = ?rest\<rparr>)"
    proof (cases "Conn n = s_conn ?s")
      case True
      then show ?thesis by simp
    next
      case False
      from cl n have "Conn n \<in> closed ?st \<or> Conn n \<in> s_conn ` set (parked sys)"
        by (simp add: closed_ok_def)
      then show ?thesis
      proof
        assume "Conn n \<in> closed ?st" then show ?thesis by simp
      next
        assume "Conn n \<in> s_conn ` set (parked sys)"
        then obtain x where x: "x \<in> set (parked sys)" "s_conn x = Conn n" by auto
        with False have "x \<in> set ?rest" by (intro keep) auto
        with x(2) show ?thesis by force
      qed
    qed
  qed
  from sok' ex' cl' show ?thesis unfolding ended_ok_def stp by (intro conjI)
qed

lemma ended_ok_step:
  assumes "ended_ok sys"
  shows "ended_ok (step e sys)"
proof (cases e)
  case (SubscribeRequest env req)
  with assms show ?thesis by (simp only: ended_ok_subscribe)
next
  case (CreateMessageRequest env req broken)
  let ?st' = "snd (serve_create env req broken (handler sys))"
  have stp: "step e sys = \<lparr>handler = ?st', parked = parked sys\<rparr>"
    using CreateMessageRequest by simp
  have "conns_of ?st' = conns_of (handler sys)"
    by (simp add: serve_create_def Let_def fun_eq_iff)
  moreover have "closed ?st' = closed (handler sys)" and "fresh ?st' = fresh (handler sys)"
    by (simp_all add: serve_create_def Let_def)
  moreover have "system_ok (step e sys)"
    using assms by (simp add: ended_ok_def system_ok_step)
  ultimately show ?thesis
    using assms sessions_exact_same [of sys ?st'] closed_ok_same [of sys ?st']
    unfolding ended_ok_def stp by simp
next
  case (RequestDone n)
  let ?st' = "(handler sys)\<lparr>cancelled := insert (RequestCtx n) (cancelled (handler sys))\<rparr>"
  have stp: "step e sys = \<lparr>handler = ?st', parked = parked sys\<rparr>"
    using RequestDone by simp
  have "system_ok (step e sys)"
    using assms by (simp add: ended_ok_def system_ok_step)
  then show ?thesis
    using assms sessions_exact_same [of sys ?st'] closed_ok_same [of sys ?st']
    unfolding ended_ok_def stp by simp
next
  case (Wake i)
  with assms show ?thesis by (simp only: ended_ok_wake)
qed

lemma ended_ok_fold: "ended_ok sys \<Longrightarrow> ended_ok (fold step evs sys)"
  by (induction evs arbitrary: sys) (simp_all add: ended_ok_step)

lemma ended_ok_run: "ended_ok (run evs)"
  unfolding run_def
  by (rule ended_ok_fold)
     (simp add: boot_def ended_ok_def system_ok_def registry_ok_def one_room_def allocated_def
        sessions_exact_def closed_ok_def NewHandler_def conns_of_def)

lemma three_parked_all:
  "parked three =
     [\<lparr>s_room = lower_id, s_conn = Conn 0, s_ctx = WithCancel 0, s_parent = RequestCtx 0\<rparr>,
      bob,
      \<lparr>s_room = lower_id, s_conn = Conn 2, s_ctx = WithCancel 2, s_parent = RequestCtx 0\<rparr>]"
  by (simp add: three_def run_def boot_def subscribe_sample NewHandler_def bob_def emit_def
      numeral_2_eq_2)

lemma three_fresh: "fresh (handler three) = 3"
  by (simp add: three_def run_def boot_def subscribe_sample NewHandler_def)

lemma three_closed: "closed (handler three) = {}"
  by (simp add: three_def run_def boot_def subscribe_sample NewHandler_def)

lemma three_conns: "conns_of (handler three) lower_id = {Conn 0, Conn (Suc 0), Conn 2}"
  by (auto simp: conns_of_def three_subscribers impl_of_abc)

lemma run_bob_left:
  "run bob_left = step (Wake (Suc 0) :: nat list event) (step (RequestDone 0 :: nat list event) three)"
  by (simp add: bob_left_def three_def run_def)

lemma bob_left_handler:
  "handler (run bob_left) =
     close_conn (Conn (Suc 0)) (remove_subscriber lower_id (Conn (Suc 0))
       ((handler three)\<lparr>cancelled := insert (RequestCtx 0) (cancelled (handler three))\<rparr>))"
  by (simp add: run_bob_left three_length three_parked handleSubscribe_resume_def Done_def bob_def)

lemma bob_left_parked:
  "parked (run bob_left) =
     [\<lparr>s_room = lower_id, s_conn = Conn 0, s_ctx = WithCancel 0, s_parent = RequestCtx 0\<rparr>,
      \<lparr>s_room = lower_id, s_conn = Conn 2, s_ctx = WithCancel 2, s_parent = RequestCtx 0\<rparr>]"
  by (simp add: run_bob_left three_length three_parked handleSubscribe_resume_def Done_def
      three_parked_all) (simp add: bob_def)

subsection \<open>Publishing to a room nobody listens to\<close>

text \<open>
  C5: when the room of the envelope has no entry in the registry, or has an entry whose
  set is empty, \<^verbatim>\<open>notifyClients\<close> does the same in both cases: it writes the log line
  and returns. It writes to no connection, calls no cancel function and leaves the
  registry as it was.
\<close>

theorem notifyClients_nobody:
  assumes "subscribers st (RoomId m) = None \<or> subscribers st (RoomId m) = Some DAList.empty"
  shows "notifyClients m broken st = emit [Slog ''No subscribers to notify''] st \<and>
         subscribers (notifyClients m broken st) = subscribers st \<and>
         cancelled (notifyClients m broken st) = cancelled st \<and>
         since st (notifyClients m broken st) = [Slog ''No subscribers to notify'']"
proof -
  have eq: "notifyClients m broken st = emit [Slog ''No subscribers to notify''] st"
    using assms by (auto simp: notifyClients_def empty.rep_eq)
  show ?thesis unfolding eq by (simp add: emit_def since_def)
qed

theorem notifyClients_nobody_witness:
  "subscribers NewHandler (RoomId hello) = None \<and>
   since NewHandler (notifyClients hello {Conn 0} NewHandler) = [Slog ''No subscribers to notify''] \<and>
   subscribers (remove_subscriber ''r1'' (Conn 0)
      (add_subscriber ''r1'' (Conn 0) (WithCancel 0) NewHandler)) (RoomId hello) = Some DAList.empty \<and>
   subscribers (notifyClients hello {Conn 0} (remove_subscriber ''r1'' (Conn 0)
      (add_subscriber ''r1'' (Conn 0) (WithCancel 0) NewHandler)))
    = subscribers (remove_subscriber ''r1'' (Conn 0)
      (add_subscriber ''r1'' (Conn 0) (WithCancel 0) NewHandler))"
proof -
  have absent: "subscribers NewHandler (RoomId hello) = None"
    by (simp add: NewHandler_def)
  have vacated: "subscribers (remove_subscriber ''r1'' (Conn 0)
      (add_subscriber ''r1'' (Conn 0) (WithCancel 0) NewHandler)) (RoomId hello) = Some DAList.empty"
    using left_room by (simp add: hello_def)
  have one: "since NewHandler (notifyClients hello {Conn 0} NewHandler) = [Slog ''No subscribers to notify'']"
    using notifyClients_nobody [of NewHandler hello "{Conn 0}"] absent by blast
  have two: "subscribers (notifyClients hello {Conn 0} (remove_subscriber ''r1'' (Conn 0)
      (add_subscriber ''r1'' (Conn 0) (WithCancel 0) NewHandler)))
    = subscribers (remove_subscriber ''r1'' (Conn 0)
      (add_subscriber ''r1'' (Conn 0) (WithCancel 0) NewHandler))"
    using notifyClients_nobody [of "remove_subscriber ''r1'' (Conn 0)
      (add_subscriber ''r1'' (Conn 0) (WithCancel 0) NewHandler)" hello "{Conn 0}"] vacated
    by blast
  from absent vacated one two show ?thesis by blast
qed

subsection \<open>Removal is idempotent\<close>

text \<open>
  C6: removing a connection from a room in which it is not registered (the room has no
  entry, or its set does not hold the connection) leaves the whole state unchanged, and
  removing the same pair twice in a row gives the state that removing it once gives.
\<close>

theorem remove_subscriber_idem:
  "(c \<notin> conns_of st r \<longrightarrow> remove_subscriber r c st = st) \<and>
   remove_subscriber r c (remove_subscriber r c st) = remove_subscriber r c st"
proof (cases "subscribers st r")
  case None
  then show ?thesis by (simp add: remove_subscriber_def)
next
  case (Some inner)
  have absent: "c \<notin> fst ` set (DAList.impl_of inner) \<Longrightarrow> DAList.delete c inner = inner"
    by (simp add: alist_eq_iff delete.rep_eq)
  have twice: "DAList.delete c (DAList.delete c inner) = DAList.delete c inner"
    by (simp add: alist_eq_iff delete.rep_eq AList.delete_idem)
  from Some absent twice show ?thesis
    by (auto simp: remove_subscriber_def conns_of_def map_upd_triv)
qed

theorem remove_subscriber_idem_witness:
  "Conn 1 \<notin> conns_of (add_subscriber ''r1'' (Conn 0) (WithCancel 0) NewHandler) ''r1'' \<and>
   conns_of (add_subscriber ''r1'' (Conn 0) (WithCancel 0) NewHandler) ''r1'' = {Conn 0} \<and>
   remove_subscriber ''r1'' (Conn 1) (add_subscriber ''r1'' (Conn 0) (WithCancel 0) NewHandler)
     = add_subscriber ''r1'' (Conn 0) (WithCancel 0) NewHandler"
  using remove_subscriber_idem [of "Conn 1" "add_subscriber ''r1'' (Conn 0) (WithCancel 0) NewHandler" "''r1''"]
  by (simp add: conns_of_add)

subsection \<open>The payload on the wire\<close>





subsection \<open>Rejected subscriptions\<close>

text \<open>
  C4: a subscribe request whose room identifier does not parse is answered with status
  400; one whose room the store does not find, with 404; one for which the store fails
  otherwise, with 500. In each of the three cases the handler returns with the state
  as it found it: nothing was upgraded, nothing was added to the registry, and no
  handler stays behind that could add an entry later.
\<close>

theorem handleSubscribe_rejects:
  "(uuid_Parse env (room_id req) = None \<longrightarrow>
      handleSubscribe env req st = (Inl (Error ''Invalid room id'' 400), st) \<and>
      step (SubscribeRequest env req) sys = sys) \<and>
   (\<forall>u. uuid_Parse env (room_id req) = Some u \<and> GetRoom env u = Some ErrNoRows \<longrightarrow>
      handleSubscribe env req st = (Inl (Error ''room not found'' 404), st) \<and>
      step (SubscribeRequest env req) sys = sys) \<and>
   (\<forall>u. uuid_Parse env (room_id req) = Some u \<and> GetRoom env u = Some ErrOther \<longrightarrow>
      handleSubscribe env req st = (Inl (Error ''Something went wrong'' 500), st) \<and>
      step (SubscribeRequest env req) sys = sys)"
  by (simp add: handleSubscribe_def)

theorem handleSubscribe_rejects_witness:
  "uuid_Parse sample_env (room_id (get ''general'')) = None \<and>
   handleSubscribe sample_env (get ''general'') NewHandler
     = (Inl (Error ''Invalid room id'' 400), NewHandler) \<and>
   uuid_Parse sample_env (room_id (get other_id)) \<noteq> None \<and>
   handleSubscribe sample_env (get other_id) NewHandler
     = (Inl (Error ''room not found'' 404), NewHandler) \<and>
   uuid_Parse sample_env (room_id (get down_id)) = Some down_uuid \<and>
   handleSubscribe sample_env (get down_id) NewHandler
     = (Inl (Error ''Something went wrong'' 500), NewHandler) \<and>
   step (SubscribeRequest sample_env (get down_id)) boot = boot"
  using handleSubscribe_rejects [of sample_env "get ''general''" NewHandler boot]
    handleSubscribe_rejects [of sample_env "get other_id" NewHandler boot]
    handleSubscribe_rejects [of sample_env "get down_id" NewHandler boot]
  by (simp add: sample_env_def get_def Parse36_bad Parse36_other Parse36_down room_uuid_def down_uuid_def)

subsection \<open>Creating a message\<close>

text \<open>
  C3: for a request whose room identifier parses, whose room the store finds and whose
  body decodes, the handler calls \<^verbatim>\<open>InsertMessage\<close>, then writes the response with the
  member \<open>message_id\<close>, and then starts the goroutine that publishes the
  \<open>message_created\<close> envelope with the identifier and the text, in this order. When
  \<^verbatim>\<open>InsertMessage\<close> fails the response is the error 500, no goroutine is started and
  the state stays as it was. What the requester receives is fixed by the handler's own
  actions: it is the same for every state of the registry and for every set of
  connections whose writes fail.
\<close>

theorem handleCreateRoomMessage_two_phase:
  assumes "uuid_Parse env (room_id req) = Some u" and "GetRoom env u = None"
    and "body req = Some text"
  shows
    "(\<forall>mid. InsertMessage env u text = Inr mid \<longrightarrow>
        handleCreateRoomMessage env req =
          [CallGetRoom u, CallInsertMessage u text,
           Respond (Json (JObject [(''message_id'', JString (uuid_String env mid))])),
           Go \<lparr>RoomId = room_id req, Kind = ''message_created'',
               Value = AnyMessageCreatedValue \<lparr>Id = uuid_String env mid, Message = text\<rparr>\<rparr>]) \<and>
     (\<forall>e. InsertMessage env u text = Inl e \<longrightarrow>
        handleCreateRoomMessage env req =
          [CallGetRoom u, CallInsertMessage u text, Respond (Error ''Something went wrong'' 500)] \<and>
        spawned (handleCreateRoomMessage env req) = [] \<and>
        snd (serve_create env req broken st) = st) \<and>
     fst (serve_create env req broken st) = responses (handleCreateRoomMessage env req) \<and>
     fst (serve_create env req broken st) = fst (serve_create env req broken' st')"
proof -
  have good: "handleCreateRoomMessage env req =
          [CallGetRoom u, CallInsertMessage u text,
           Respond (Json (JObject [(''message_id'', JString (uuid_String env mid))])),
           Go \<lparr>RoomId = room_id req, Kind = ''message_created'',
               Value = AnyMessageCreatedValue \<lparr>Id = uuid_String env mid, Message = text\<rparr>\<rparr>]"
    if "InsertMessage env u text = Inr mid" for mid
    using assms that
    by (simp add: handleCreateRoomMessage_def marshal_struct_def KindMessageCreated_def)
  have bad: "handleCreateRoomMessage env req =
          [CallGetRoom u, CallInsertMessage u text, Respond (Error ''Something went wrong'' 500)]"
    if "InsertMessage env u text = Inl e" for e
    using assms that by (simp add: handleCreateRoomMessage_def)
  have none: "spawned (handleCreateRoomMessage env req) = [] \<and> snd (serve_create env req broken st) = st"
    if "InsertMessage env u text = Inl e" for e
    using bad [OF that] by (simp add: spawned_def serve_create_def)
  have resp: "fst (serve_create env req b s) = responses (handleCreateRoomMessage env req)" for b s
    by (simp add: serve_create_def Let_def)
  from good bad none resp show ?thesis by simp
qed

theorem handleCreateRoomMessage_two_phase_witness:
  "uuid_Parse sample_env (room_id (post lower_id ''hello'')) = Some room_uuid \<and>
   GetRoom sample_env room_uuid = None \<and>
   InsertMessage sample_env room_uuid ''hello'' = Inr message_uuid \<and>
   handleCreateRoomMessage sample_env (post lower_id ''hello'') =
     [CallGetRoom room_uuid, CallInsertMessage room_uuid ''hello'',
      Respond (Json (JObject [(''message_id'', JString ''00000001-0000-4000-8000-000000000007'')])),
      Go \<lparr>RoomId = lower_id, Kind = ''message_created'',
          Value = AnyMessageCreatedValue
            \<lparr>Id = ''00000001-0000-4000-8000-000000000007'', Message = ''hello''\<rparr>\<rparr>] \<and>
   InsertMessage sample_env room_uuid ''boom'' = Inl ErrOther \<and>
   handleCreateRoomMessage sample_env (post lower_id ''boom'') =
     [CallGetRoom room_uuid, CallInsertMessage room_uuid ''boom'',
      Respond (Error ''Something went wrong'' 500)]"
proof -
  have parsed: "uuid_Parse sample_env lower_id = Some room_uuid"
    by (simp add: sample_env_def Parse36_lower)
  have found: "GetRoom sample_env room_uuid = None"
    by (simp add: sample_env_def)
  have stored: "InsertMessage sample_env room_uuid ''hello'' = Inr message_uuid"
    by (simp add: sample_env_def)
  have failed: "InsertMessage sample_env room_uuid ''boom'' = Inl ErrOther"
    by (simp add: sample_env_def)
  have shown: "uuid_String sample_env message_uuid = ''00000001-0000-4000-8000-000000000007''"
    by (simp add: sample_env_def String36_message)
  show ?thesis
    using parsed found stored failed shown
      handleCreateRoomMessage_two_phase [of sample_env "post lower_id ''hello''" room_uuid "''hello''"]
      handleCreateRoomMessage_two_phase [of sample_env "post lower_id ''boom''" room_uuid "''boom''"]
    by (simp add: post_def)
qed

subsection \<open>A write that fails\<close>

text \<open>
  C1: \<^verbatim>\<open>notifyClients\<close> runs on a room whose set holds the connection \<open>B\<close> with the
  cancel function \<open>kB\<close>, and the write to \<open>B\<close> fails. Then \<^verbatim>\<open>WriteJSON\<close> is called
  once on every connection of the set, \<open>B\<close> included and none twice, so the loop is not
  cut short and nothing is retried; every connection whose write succeeds has received
  the payload; the cancel functions called are those of the connections whose write
  failed, \<open>kB\<close> among them, each once; the registry itself is not changed by
  \<^verbatim>\<open>notifyClients\<close>. The session of \<open>B\<close> is no longer blocked afterwards: it runs
  to its end, and then \<open>B\<close> is out of the room's set, the other connections stay, and
  \<open>B\<close> is closed.
\<close>

theorem notifyClients_one_fails:
  assumes "subscribers st (RoomId m) = Some subs" and "DAList.lookup subs B = Some kB"
    and "B \<in> broken"
  shows
    "attempts (since st (notifyClients m broken st)) = map fst (DAList.impl_of subs) \<and>
     distinct (attempts (since st (notifyClients m broken st))) \<and>
     delivered (since st (notifyClients m broken st)) =
       map (\<lambda>(c, k). (c, marshal_Message m)) (filter (\<lambda>(c, k). c \<notin> broken) (DAList.impl_of subs)) \<and>
     cancels (since st (notifyClients m broken st)) =
       map snd (filter (\<lambda>(c, k). c \<in> broken) (DAList.impl_of subs)) \<and>
     kB \<in> set (cancels (since st (notifyClients m broken st))) \<and>
     conns_of (notifyClients m broken st) = conns_of st \<and>
     (\<exists>st'. handleSubscribe_resume \<lparr>s_room = RoomId m, s_conn = B, s_ctx = kB, s_parent = p\<rparr>
               (notifyClients m broken st) = Some st' \<and>
            conns_of st' (RoomId m) = conns_of st (RoomId m) - {B} \<and>
            B \<in> closed st')"
proof -
  let ?xs = "DAList.impl_of subs"
  let ?st' = "notifyClients m broken st"
  have mem: "(B, kB) \<in> set ?xs"
    using assms(2) by (auto simp: lookup.rep_eq dest: map_of_SomeD)
  then have ne: "length ?xs \<noteq> 0" by auto
  have loop: "?st' = notify_each (marshal_Message m) broken ?xs st"
    using assms(1) ne by (simp add: notifyClients_def)
  note tr = since_notify_each [of st "marshal_Message m" broken ?xs]
  have att: "attempts (since st ?st') = map fst ?xs"
    and del: "delivered (since st ?st') =
       map (\<lambda>(c, k). (c, marshal_Message m)) (filter (\<lambda>(c, k). c \<notin> broken) ?xs)"
    and can: "cancels (since st ?st') = map snd (filter (\<lambda>(c, k). c \<in> broken) ?xs)"
    using tr unfolding loop by simp_all
  have once: "distinct (attempts (since st ?st'))"
    unfolding att by simp
  have hit: "kB \<in> set (cancels (since st ?st'))"
  proof -
    have "(B, kB) \<in> set (filter (\<lambda>(c, k). c \<in> broken) ?xs)"
      using mem assms(3) by simp
    then have "snd (B, kB) \<in> snd ` set (filter (\<lambda>(c, k). c \<in> broken) ?xs)"
      by (rule imageI)
    then show ?thesis unfolding can by simp
  qed
  have same: "conns_of ?st' = conns_of st"
    by simp
  have woken: "kB \<in> cancelled ?st'"
  proof -
    have "(B, kB) \<in> set (filter (\<lambda>(c, k). c \<in> broken) ?xs)"
      using mem assms(3) by simp
    then have "snd (B, kB) \<in> snd ` set (filter (\<lambda>(c, k). c \<in> broken) ?xs)"
      by (rule imageI)
    then show ?thesis unfolding loop cancelled_notify_each by simp
  qed
  let ?s = "\<lparr>s_room = RoomId m, s_conn = B, s_ctx = kB, s_parent = p\<rparr>"
  let ?end = "close_conn B (remove_subscriber (RoomId m) B ?st')"
  have res: "handleSubscribe_resume ?s ?st' = Some ?end"
    using woken by (simp add: handleSubscribe_resume_def Done_def)
  have gone: "conns_of ?end (RoomId m) = conns_of st (RoomId m) - {B}"
    by (simp add: conns_of_remove)
  have shut: "B \<in> closed ?end"
    by (simp add: close_conn_def)
  have ex: "\<exists>st'. handleSubscribe_resume ?s ?st' = Some st' \<and>
            conns_of st' (RoomId m) = conns_of st (RoomId m) - {B} \<and> B \<in> closed st'"
    using res gone shut by (intro exI [of _ ?end] conjI)
  from att once del can hit same ex show ?thesis by (intro conjI)
qed

theorem notifyClients_one_fails_witness:
  "subscribers (handler three) (RoomId hello_room) = Some abc \<and>
   DAList.lookup abc (Conn 1) = Some (WithCancel 1) \<and>
   conns_of (handler three) lower_id = {Conn 0, Conn 1, Conn 2} \<and>
   attempts (since (handler three) (notifyClients hello_room {Conn 1} (handler three)))
     = [Conn 0, Conn 1, Conn 2] \<and>
   delivered (since (handler three) (notifyClients hello_room {Conn 1} (handler three)))
     = [(Conn 0, marshal_Message hello_room), (Conn 2, marshal_Message hello_room)] \<and>
   cancels (since (handler three) (notifyClients hello_room {Conn 1} (handler three)))
     = [WithCancel 1] \<and>
   conns_of (handler (step (Wake 1)
      (step (CreateMessageRequest sample_env (post lower_id ''hello'') {Conn 1}) three))) lower_id
     = {Conn 0, Conn 2}"
proof -
  let ?st = "handler three"
  let ?st' = "notifyClients hello_room {Conn 1} ?st"
  have room: "RoomId hello_room = lower_id" by (simp add: hello_room_def)
  have subs: "subscribers ?st (RoomId hello_room) = Some abc"
    by (simp add: three_subscribers room)
  have look: "DAList.lookup abc (Conn 1) = Some (WithCancel 1)"
    by (simp add: lookup.rep_eq impl_of_abc)
  have all: "conns_of ?st lower_id = {Conn 0, Conn 1, Conn 2}"
    by (auto simp: conns_of_def three_subscribers impl_of_abc)
  note fact = notifyClients_one_fails [OF subs look, of "{Conn 1}" "RequestCtx 0"]
  have att: "attempts (since ?st ?st') = [Conn 0, Conn 1, Conn 2]"
    using fact by (simp add: impl_of_abc)
  have del: "delivered (since ?st ?st')
     = [(Conn 0, marshal_Message hello_room), (Conn 2, marshal_Message hello_room)]"
    using fact by (simp add: impl_of_abc)
  have can: "cancels (since ?st ?st') = [WithCancel 1]"
    using fact by (simp add: impl_of_abc)
  from fact obtain st'' where
    res: "handleSubscribe_resume bob ?st' = Some st''"
    and left: "conns_of st'' lower_id = conns_of ?st lower_id - {Conn 1}"
    by (auto simp: room bob_def)
  have sys: "handler (step (Wake 1)
      (step (CreateMessageRequest sample_env (post lower_id ''hello'') {Conn 1}) three)) = st''"
    using res by (simp add: serve_post_hello three_length three_parked)
  have fin: "conns_of st'' lower_id = {Conn 0, Conn 2}"
    unfolding left all by auto
  from subs look all att del can sys fin show ?thesis by simp
qed

subsection \<open>One room per connection\<close>

text \<open>
  C8: in every state the server reaches from its start, by any sequence of subscribe
  requests, create-message requests, ended request contexts and resumed handlers, no
  connection is in the sets of two rooms. Adding to a room without an entry creates the
  entry, holding the new connection alone; adding to a room with an entry extends that
  entry. Removing takes the connection out of the room's set, leaves the other rooms
  alone and keeps every entry of the outer map, the room's own too.
\<close>

theorem registry_one_room:
  "one_room (handler (run evs)) \<and>
   (subscribers st r = None \<longrightarrow>
      subscribers (add_subscriber r c k st) r = Some (DAList.update c k DAList.empty)) \<and>
   (\<forall>inner. subscribers st r = Some inner \<longrightarrow>
      subscribers (add_subscriber r c k st) r = Some (DAList.update c k inner)) \<and>
   dom (subscribers (remove_subscriber r c st)) = dom (subscribers st) \<and>
   conns_of (remove_subscriber r c st) r = conns_of st r - {c} \<and>
   (\<forall>r'. r' \<noteq> r \<longrightarrow> conns_of (remove_subscriber r c st) r' = conns_of st r')"
proof -
  have inv: "one_room (handler (run evs))"
    using registry_ok_run [of evs] by (simp add: registry_ok_def)
  have first: "subscribers st r = None \<Longrightarrow>
      subscribers (add_subscriber r c k st) r = Some (DAList.update c k DAList.empty)"
    by (simp add: add_subscriber_def emit_def)
  have later: "subscribers st r = Some inner \<Longrightarrow>
      subscribers (add_subscriber r c k st) r = Some (DAList.update c k inner)" for inner
    by (simp add: add_subscriber_def emit_def)
  have slot: "dom (subscribers (remove_subscriber r c st)) = dom (subscribers st)"
    by (auto simp: remove_subscriber_def split: option.splits)
  from inv first later slot show ?thesis
    by (simp add: conns_of_remove)
qed

theorem registry_one_room_witness:
  "one_room (handler (run two_spellings)) \<and>
   conns_of (handler (run two_spellings)) lower_id = {Conn 0} \<and>
   conns_of (handler (run two_spellings)) upper_id = {Conn 1} \<and>
   subscribers NewHandler lower_id = None \<and>
   subscribers (add_subscriber lower_id (Conn 0) (WithCancel 0) NewHandler) lower_id
     = Some (DAList.update (Conn 0) (WithCancel 0) DAList.empty) \<and>
   dom (subscribers (remove_subscriber lower_id (Conn 0) (handler (run two_spellings))))
     = {lower_id, upper_id} \<and>
   conns_of (remove_subscriber lower_id (Conn 0) (handler (run two_spellings))) lower_id = {}"
proof -
  have lo: "conns_of (handler (run two_spellings)) lower_id = {Conn 0}"
    by (simp add: conns_of_def two_spellings_handler update.rep_eq empty.rep_eq)
  have up: "conns_of (handler (run two_spellings)) upper_id = {Conn 1}"
    by (simp add: conns_of_def two_spellings_handler update.rep_eq empty.rep_eq)
  have none: "subscribers NewHandler lower_id = None"
    by (simp add: NewHandler_def)
  have slots: "dom (subscribers (handler (run two_spellings))) = {lower_id, upper_id}"
    by (auto simp: two_spellings_handler)
  from lo up none slots
    registry_one_room [of two_spellings NewHandler lower_id "Conn 0" "WithCancel 0"]
    registry_one_room [of two_spellings "handler (run two_spellings)" lower_id "Conn 0" "WithCancel 0"]
  show ?thesis by simp
qed

subsection \<open>The key of the registry\<close>

text \<open>
  C9: the registry is keyed by the text of the URL parameter. Take two different texts
  that parse to the same UUID, for a room the store finds. A client subscribes under the
  first text, in any state the server can reach; then a message is created under the
  second. The subscription succeeds and registers the connection under the first text
  only; the message is stored and answered with its identifier; the publication writes
  to the connections registered under the second text, the subscriber is not among
  them, and it is still registered afterwards.
\<close>

theorem registry_keyed_by_raw_text:
  assumes "raw1 \<noteq> raw2"
    and "uuid_Parse env raw1 = Some u" and "uuid_Parse env raw2 = Some u"
    and "GetRoom env u = None"
    and "room_id sub = raw1" and "upgradable sub"
    and "room_id msg = raw2" and "body msg = Some text"
    and "InsertMessage env u text = Inr mid"
  shows "\<exists>s st1 st2.
      handleSubscribe env sub (handler (run evs)) = (Inr s, st1) \<and>
      s_room s = raw1 \<and>
      s_conn s \<in> conns_of st1 raw1 \<and>
      s_conn s \<notin> conns_of st1 raw2 \<and>
      serve_create env msg broken st1 =
        ([Json (JObject [(''message_id'', JString (uuid_String env mid))])], st2) \<and>
      set (attempts (since st1 st2)) = conns_of st1 raw2 \<and>
      s_conn s \<notin> set (attempts (since st1 st2)) \<and>
      s_conn s \<in> conns_of st2 raw1"
proof -
  let ?st = "handler (run evs)"
  let ?c = "Conn (fresh ?st)"
  let ?s = "\<lparr>s_room = raw1, s_conn = ?c, s_ctx = WithCancel (fresh ?st),
             s_parent = req_context sub\<rparr>"
  let ?st1 = "add_subscriber raw1 ?c (WithCancel (fresh ?st))
                ((emit [Upgrade ?c] ?st)\<lparr>fresh := Suc (fresh ?st)\<rparr>)"
  let ?m = "\<lparr>RoomId = raw2, Kind = KindMessageCreated,
             Value = AnyMessageCreatedValue \<lparr>Id = uuid_String env mid, Message = text\<rparr>\<rparr>"
  let ?st2 = "notifyClients ?m broken ?st1"
  have sub: "handleSubscribe env sub ?st = (Inr ?s, ?st1)"
    using assms(2,4,5,6) by (simp add: handleSubscribe_def Let_def)
  have ok: "registry_ok ?st" by (rule registry_ok_run)
  then have new: "?c \<notin> conns_of ?st r" for r
    by (auto simp: registry_ok_def allocated_def)
  have in1: "?c \<in> conns_of ?st1 raw1"
    by (simp add: conns_of_add)
  have out2: "?c \<notin> conns_of ?st1 raw2"
    using assms(1) new by (simp add: conns_of_add)
  have acts: "handleCreateRoomMessage env msg =
      [CallGetRoom u, CallInsertMessage u text,
       Respond (Json (JObject [(''message_id'', JString (uuid_String env mid))])), Go ?m]"
    using assms(3,4,7,8,9) by (simp add: handleCreateRoomMessage_def marshal_struct_def)
  have served: "serve_create env msg broken ?st1 =
      ([Json (JObject [(''message_id'', JString (uuid_String env mid))])], ?st2)"
    by (simp add: serve_create_def acts responses_def spawned_def)
  have tried: "set (attempts (since ?st1 ?st2)) = conns_of ?st1 raw2"
    using attempts_notifyClients [of ?st1 ?m broken] by simp
  have missed: "?c \<notin> set (attempts (since ?st1 ?st2))"
    unfolding tried by (rule out2)
  have stays: "?c \<in> conns_of ?st2 raw1"
    using in1 by simp
  show ?thesis
    apply (rule exI [of _ ?s], rule exI [of _ ?st1], rule exI [of _ ?st2])
    using sub in1 out2 served tried missed stays by simp
qed

theorem registry_keyed_by_raw_text_witness:
  "upper_id \<noteq> lower_id \<and>
   uuid_Parse sample_env upper_id = Some room_uuid \<and>
   uuid_Parse sample_env lower_id = Some room_uuid \<and>
   fst (handleSubscribe sample_env (get upper_id) NewHandler)
     = Inr \<lparr>s_room = upper_id, s_conn = Conn 0, s_ctx = WithCancel 0, s_parent = RequestCtx 0\<rparr> \<and>
   conns_of (snd (handleSubscribe sample_env (get upper_id) NewHandler)) upper_id = {Conn 0} \<and>
   fst (serve_create sample_env (post lower_id ''hello'') {}
          (snd (handleSubscribe sample_env (get upper_id) NewHandler)))
     = [Json (JObject [(''message_id'', JString ''00000001-0000-4000-8000-000000000007'')])] \<and>
   attempts (since (snd (handleSubscribe sample_env (get upper_id) NewHandler))
      (snd (serve_create sample_env (post lower_id ''hello'') {}
          (snd (handleSubscribe sample_env (get upper_id) NewHandler))))) = []"
proof -
  have up: "uuid_Parse sample_env upper_id = Some room_uuid"
    by (simp add: sample_env_def Parse36_upper)
  have lo: "uuid_Parse sample_env lower_id = Some room_uuid"
    by (simp add: sample_env_def Parse36_lower)
  have found: "GetRoom sample_env room_uuid = None"
    by (simp add: sample_env_def)
  have stored: "InsertMessage sample_env room_uuid ''hello'' = Inr message_uuid"
    by (simp add: sample_env_def)
  have start: "handler (run []) = NewHandler"
    by (simp add: run_def boot_def)
  have shown: "uuid_String sample_env message_uuid = ''00000001-0000-4000-8000-000000000007''"
    by (simp add: sample_env_def String36_message)
  from registry_keyed_by_raw_text [where evs = "[]" and broken = "{}" and env = sample_env
      and sub = "get upper_id" and msg = "post lower_id ''hello''",
      OF spellings_differ(2) up lo found _ _ _ _ stored]
  obtain s st1 st2 where
    sub: "handleSubscribe sample_env (get upper_id) NewHandler = (Inr s, st1)"
    and srv: "serve_create sample_env (post lower_id ''hello'') {} st1 =
        ([Json (JObject [(''message_id'', JString (uuid_String sample_env message_uuid))])], st2)"
    and tried: "set (attempts (since st1 st2)) = conns_of st1 lower_id"
    unfolding start by (auto simp: get_def post_def)
  have s: "s = \<lparr>s_room = upper_id, s_conn = Conn 0, s_ctx = WithCancel 0, s_parent = RequestCtx 0\<rparr>"
    and st1: "st1 = add_subscriber upper_id (Conn 0) (WithCancel 0)
        ((emit [Upgrade (Conn 0)] NewHandler)\<lparr>fresh := Suc 0\<rparr>)"
    using sub by (simp_all add: subscribe_upper NewHandler_def)
  have c1: "conns_of st1 upper_id = {Conn 0}"
    unfolding st1 by (simp add: conns_of_add)
  have c2: "conns_of st1 lower_id = {}"
    unfolding st1 by (simp add: conns_of_add)
  have none: "attempts (since st1 st2) = []"
    using tried c2 by simp
  from spellings_differ(2) up lo s c1 none show ?thesis
    by (simp add: sub srv shown)
qed

subsection \<open>The end of a session\<close>

text \<open>
  C2: take any state the server can reach and any handler \<open>s\<close> blocked in it. The
  handler is registered: its room's set holds its connection with its cancel function.
  A publication to its room during which the write to its connection fails cancels
  its context. Once its context is done, by its request's context or by its own cancel
  function, the handler runs to its end: its entry is out of the registry, the other
  connections of the room remain, and its connection is closed by the deferred call,
  the one effect of that last part; the handler is then no longer among the blocked.
  No statement between the registration and the delete can fail, so a handler leaves
  the wait in no other way, and along every run the cleanup is whole: no closed
  connection is in any room's set, and every connection an upgrade has handed out is
  either closed or the connection of a handler that is still blocked.
\<close>

theorem session_cleanup:
  "(\<forall>s \<in> set (parked (run evs)).
       registered (handler (run evs)) s \<and>
       (\<forall>m broken. RoomId m = s_room s \<and> s_conn s \<in> broken \<longrightarrow>
          s_ctx s \<in> cancelled (notifyClients m broken (handler (run evs)))) \<and>
       (\<forall>st. s_parent s \<in> cancelled st \<or> s_ctx s \<in> cancelled st \<longrightarrow>
          (\<exists>st'. handleSubscribe_resume s st = Some st' \<and>
                 \<not> registered st' s \<and>
                 conns_of st' (s_room s) = conns_of st (s_room s) - {s_conn s} \<and>
                 s_conn s \<in> closed st' \<and>
                 since st st' = [Close (s_conn s)]))) \<and>
   (\<forall>i < length (parked (run evs)).
       Done (handler (run evs)) (parked (run evs) ! i) \<longrightarrow>
         handleSubscribe_resume (parked (run evs) ! i) (handler (run evs))
           = Some (handler (step (Wake i) (run evs))) \<and>
         parked (step (Wake i) (run evs))
           = take i (parked (run evs)) @ drop (Suc i) (parked (run evs))) \<and>
   (\<forall>r. conns_of (handler (run evs)) r \<inter> closed (handler (run evs)) = {}) \<and>
   (\<forall>n < fresh (handler (run evs)).
       (Conn n \<in> closed (handler (run evs))) \<noteq> (Conn n \<in> s_conn ` set (parked (run evs))))"
proof -
  let ?sys = "run evs"
  have inv: "ended_ok ?sys" by (rule ended_ok_run)
  then have sok: "system_ok ?sys" and ex: "sessions_exact ?sys" and cl: "closed_ok ?sys"
    by (simp_all add: ended_ok_def)
  have each: "registered (handler ?sys) s \<and>
       (\<forall>m broken. RoomId m = s_room s \<and> s_conn s \<in> broken \<longrightarrow>
          s_ctx s \<in> cancelled (notifyClients m broken (handler ?sys))) \<and>
       (\<forall>st. s_parent s \<in> cancelled st \<or> s_ctx s \<in> cancelled st \<longrightarrow>
          (\<exists>st'. handleSubscribe_resume s st = Some st' \<and>
                 \<not> registered st' s \<and>
                 conns_of st' (s_room s) = conns_of st (s_room s) - {s_conn s} \<and>
                 s_conn s \<in> closed st' \<and>
                 since st st' = [Close (s_conn s)]))"
    if "s \<in> set (parked ?sys)" for s
  proof (intro conjI allI impI)
    show reg: "registered (handler ?sys) s"
      using sok that by (simp add: system_ok_def)
    fix m :: Message and broken
    assume "RoomId m = s_room s \<and> s_conn s \<in> broken"
    then show "s_ctx s \<in> cancelled (notifyClients m broken (handler ?sys))"
      using cancelled_notifyClients [OF reg, of m broken] by simp
  next
    fix st :: server assume "s_parent s \<in> cancelled st \<or> s_ctx s \<in> cancelled st"
    then have "Done st s" by (auto simp: Done_def)
    then show "\<exists>st'. handleSubscribe_resume s st = Some st' \<and>
                 \<not> registered st' s \<and>
                 conns_of st' (s_room s) = conns_of st (s_room s) - {s_conn s} \<and>
                 s_conn s \<in> closed st' \<and>
                 since st st' = [Close (s_conn s)]"
      by (simp add: handleSubscribe_resume_def registered_remove conns_of_remove)
  qed
  have wake: "handleSubscribe_resume (parked ?sys ! i) (handler ?sys) = Some (handler (step (Wake i) ?sys)) \<and>
         parked (step (Wake i) ?sys) = take i (parked ?sys) @ drop (Suc i) (parked ?sys)"
    if "i < length (parked ?sys)" and "Done (handler ?sys) (parked ?sys ! i)" for i
    using that by (simp add: handleSubscribe_resume_def)
  have apart: "conns_of (handler ?sys) r \<inter> closed (handler ?sys) = {}" for r
    using ex cl by (auto simp: sessions_exact_def closed_ok_def)
  have ended: "(Conn n \<in> closed (handler ?sys)) \<noteq> (Conn n \<in> s_conn ` set (parked ?sys))"
    if "n < fresh (handler ?sys)" for n
    using cl that by (auto simp: closed_ok_def)
  from each wake apart ended show ?thesis by (intro conjI ballI allI impI) blast+
qed

theorem session_cleanup_witness:
  "bob \<in> set (parked three) \<and>
   registered (handler three) bob \<and>
   WithCancel 1 \<in> cancelled (notifyClients hello_room {Conn 1} (handler three)) \<and>
   (\<exists>st'. handleSubscribe_resume bob (notifyClients hello_room {Conn 1} (handler three)) = Some st' \<and>
      conns_of st' lower_id = {Conn 0, Conn 2} \<and> Conn 1 \<in> closed st') \<and>
   closed (handler (run bob_left)) = {Conn 1} \<and>
   conns_of (handler (run bob_left)) lower_id = {Conn 0, Conn 2} \<and>
   conns_of (handler (run bob_left)) lower_id \<inter> closed (handler (run bob_left)) = {} \<and>
   Suc 0 < fresh (handler (run bob_left)) \<and>
   Conn (Suc 0) \<in> closed (handler (run bob_left)) \<and>
   Conn (Suc 0) \<notin> s_conn ` set (parked (run bob_left))"
proof -
  have who: "bob \<in> set (parked three)" by (simp add: three_parked_all)
  note fact = session_cleanup [of "[SubscribeRequest sample_env (get lower_id),
                SubscribeRequest sample_env (get lower_id),
                SubscribeRequest sample_env (get lower_id)]", folded three_def]
  note mine = fact [THEN conjunct1, THEN bspec, OF who]
  note reg = mine [THEN conjunct1]
  note by_handle = mine [THEN conjunct2, THEN conjunct1, rule_format]
  note cleanup = mine [THEN conjunct2, THEN conjunct2, rule_format]
  have room: "s_room bob = lower_id" and conn: "s_conn bob = Conn 1" and ctx: "s_ctx bob = WithCancel 1"
    by (simp_all add: bob_def)
  have handle: "WithCancel 1 \<in> cancelled (notifyClients hello_room {Conn 1} (handler three))"
    using by_handle [of hello_room "{Conn 1}"] unfolding room conn ctx
    by (simp add: hello_room_def)
  from cleanup [of "notifyClients hello_room {Conn 1} (handler three)"] handle
  obtain st' where
    res: "handleSubscribe_resume bob (notifyClients hello_room {Conn 1} (handler three)) = Some st'"
    and left: "conns_of st' lower_id =
       conns_of (notifyClients hello_room {Conn 1} (handler three)) lower_id - {Conn 1}"
    and shut: "Conn 1 \<in> closed st'"
    unfolding room conn ctx by blast
  have less: "{Conn 0, Conn (Suc 0), Conn 2} - {Conn (Suc 0)} = {Conn 0, Conn 2}"
    by auto
  have fin: "conns_of st' lower_id = {Conn 0, Conn 2}"
    using left by (simp add: three_conns less)
  have ex: "\<exists>st'. handleSubscribe_resume bob (notifyClients hello_room {Conn 1} (handler three)) = Some st' \<and>
      conns_of st' lower_id = {Conn 0, Conn 2} \<and> Conn 1 \<in> closed st'"
    using res fin shut by blast
  note later = session_cleanup [of bob_left]
  note apart = later [THEN conjunct2, THEN conjunct2, THEN conjunct1, rule_format, of lower_id]
  note ended = later [THEN conjunct2, THEN conjunct2, THEN conjunct2, rule_format, of "Suc 0"]
  have cl: "closed (handler (run bob_left)) = {Conn 1}"
    by (simp add: bob_left_handler three_closed)
  have cs: "conns_of (handler (run bob_left)) lower_id = {Conn 0, Conn 2}"
    by (simp add: bob_left_handler conns_of_remove three_conns less)
  have fr: "Suc 0 < fresh (handler (run bob_left))"
    by (simp add: bob_left_handler three_fresh)
  have inc: "Conn (Suc 0) \<in> closed (handler (run bob_left))"
    using cl by simp
  have out: "Conn (Suc 0) \<notin> s_conn ` set (parked (run bob_left))"
    using ended [OF fr] inc by blast
  from who reg handle ex cl cs apart fr inc out show ?thesis by (intro conjI)
qed


end
